theory Spec2Isabelle
  imports Complex_Main "HOL-Library.Word"
begin

text \<open>
  A shallow embedding of the entropy sources of the fingerprinting library: the canvas
  source with its 3x3 denoiser (\<open>canvas.ts\<close>), the media-query prober
  (\<open>screen_media_queries.ts\<close>), the WebRTC address gatherer and the TLS fingerprint source
  (\<open>tls_fingerprint.ts\<close>). The browser is a parameter: a record of the answers it gives.
\<close>

section \<open>Values of the host language\<close>

text \<open>
  A value that a host call throws: an instance of \<open>Error\<close>, which carries a message, or
  any other value.
\<close>

datatype thrown = ErrorObj string | NonError

text \<open>
  The values a parsed JSON body can hold, with \<open>undefined\<close> for a missing property.
\<close>

datatype jsval =
    JUndefined
  | JNull
  | JBool bool
  | JNum real
  | JStr string
  | JArr "jsval list"
  | JObj "(string \<times> jsval) list"








section \<open>TLS fingerprint source\<close>


text \<open>
  An options object. Each property is absent (\<open>None\<close>), or present with a value that may
  itself be \<open>undefined\<close> (\<open>Some None\<close>).
\<close>

record TLSFingerprintOptions =
  endpoint :: "string option option"
  timeout :: "real option option"

definition defaultOptions :: TLSFingerprintOptions where
  "defaultOptions = \<lparr>endpoint = Some None, timeout = Some (Some 3000)\<rparr>"

text \<open>Object spread \<open>{ ...a, ...b }\<close>: every property present in \<open>b\<close> overwrites that of \<open>a\<close>.\<close>

definition spread :: "TLSFingerprintOptions \<Rightarrow> TLSFingerprintOptions \<Rightarrow> TLSFingerprintOptions" where
  "spread a b =
     \<lparr>endpoint = (case endpoint b of None \<Rightarrow> endpoint a | Some v \<Rightarrow> Some v),
      timeout = (case timeout b of None \<Rightarrow> timeout a | Some v \<Rightarrow> Some v)\<rparr>"


definition configureTLSFingerprint ::
  "TLSFingerprintOptions \<Rightarrow> TLSFingerprintOptions \<Rightarrow> TLSFingerprintOptions" where
  "configureTLSFingerprint options configuredOptions = spread defaultOptions options"

text \<open>Reading a property that is absent or \<open>undefined\<close> gives \<open>undefined\<close>.\<close>

definition read_prop :: "'a option option \<Rightarrow> 'a option" where
  "read_prop p = (case p of None \<Rightarrow> None | Some v \<Rightarrow> v)"

text \<open>\<open>timeout || 3000\<close>: \<open>undefined\<close> and 0 are falsy.\<close>

definition effectiveTimeout :: "TLSFingerprintOptions \<Rightarrow> real" where
  "effectiveTimeout c =
     (case read_prop (timeout c) of None \<Rightarrow> 3000 | Some t \<Rightarrow> if t = 0 then 3000 else t)"

record response =
  ok :: bool
  status :: nat
  json :: "thrown + jsval"








section \<open>Host calls in time\<close>

text \<open>
  The host is asked in sequence. Its answers are functions of the tick, the number of
  answers it has given since the page was loaded, and of what is asked; so the host may
  answer the same question differently at different times (noise on readback). A
  computation takes the tick at which it starts, and throws or returns its value with the
  tick at which it ends.
\<close>

type_synonym 'a io = "nat \<Rightarrow> thrown + ('a \<times> nat)"

definition ret :: "'a \<Rightarrow> 'a io" where
  "ret x t = Inr (x, t)"

definition bindIO :: "'a io \<Rightarrow> ('a \<Rightarrow> 'b io) \<Rightarrow> 'b io" where
  "bindIO m f t = (case m t of Inl e \<Rightarrow> Inl e | Inr (x, t') \<Rightarrow> f x t')"

definition ask :: "(nat \<Rightarrow> 'a) \<Rightarrow> 'a io" where
  "ask q t = Inr (q t, Suc t)"

definition askE :: "(nat \<Rightarrow> thrown + 'a) \<Rightarrow> 'a io" where
  "askE q t = (case q t of Inl e \<Rightarrow> Inl e | Inr x \<Rightarrow> Inr (x, Suc t))"

definition run :: "'a io \<Rightarrow> nat \<Rightarrow> thrown + 'a" where
  "run m t = (case m t of Inl e \<Rightarrow> Inl e | Inr (x, t') \<Rightarrow> Inr x)"

section \<open>Canvas source\<close>

type_synonym u8 = "8 word"

text \<open>
  A canvas element is its size and the list of what has been done to it and to its 2D
  context, in order. What a readback of such a canvas yields (rasterisation, fonts,
  anti-aliasing, noise) is the host's answer, not the source's.
\<close>

datatype canvas = Canvas (width: nat) (height: nat) (drawn: "draw_cmd list")
and draw_cmd =
    SetWidth nat
  | SetHeight nat
  | TextBaseline string
  | FillStyle string
  | Font string
  | GlobalCompositeOperation string
  | ImageSmoothingEnabled bool
  | Rect real real real real
  | FillRect real real real real
  | FillText "nat list" real real
  | BeginPath
  | Arc real real real real real bool
  | ClosePath
  | Fill
  | FillRule string
  | DrawImage canvas real real real real
  | PutImageData "u8 list" nat nat real real

text \<open>\<open>document.createElement('canvas')\<close>: a new canvas has the default size.\<close>

definition createCanvas :: canvas where
  "createCanvas = Canvas 300 150 []"

definition setWidth :: "nat \<Rightarrow> canvas \<Rightarrow> canvas" where
  "setWidth w c = Canvas w (height c) (drawn c @ [SetWidth w])"

definition setHeight :: "nat \<Rightarrow> canvas \<Rightarrow> canvas" where
  "setHeight v c = Canvas (width c) v (drawn c @ [SetHeight v])"

definition draw :: "draw_cmd list \<Rightarrow> canvas \<Rightarrow> canvas" where
  "draw cmds c = Canvas (width c) (height c) (drawn c @ cmds)"

text \<open>
  What the canvas source asks of its host: the three answers of the environment oracle;
  whether a canvas has the method \<open>toDataURL\<close>; whether \<open>getContext('2d')\<close> gives a context
  (\<open>False\<close> is \<open>null\<close>); \<open>isPointInPath\<close>; and the two readbacks, \<open>toDataURL\<close> and
  \<open>getImageData\<close>, which may throw. Calls that draw give no answer and are taken not to
  throw.
\<close>

record canvas_host =
  isWebKit :: bool
  isWebKit616OrNewer :: bool
  isSafariWebKit :: bool
  hasToDataURL :: bool
  getContext2d :: "nat \<Rightarrow> canvas \<Rightarrow> bool"
  isPointInPath :: "nat \<Rightarrow> canvas \<Rightarrow> real \<Rightarrow> real \<Rightarrow> string \<Rightarrow> bool"
  toDataURL :: "nat \<Rightarrow> canvas \<Rightarrow> thrown + string"
  getImageData :: "nat \<Rightarrow> canvas \<Rightarrow> nat \<Rightarrow> nat \<Rightarrow> nat \<Rightarrow> nat \<Rightarrow> thrown + u8 list"

record CanvasFingerprint =
  winding :: bool
  geometry :: string
  text_image :: string

text \<open>The constant enum \<open>ImageStatus\<close>: its members are strings.\<close>

definition Unsupported :: string where "Unsupported = ''unsupported''"

definition Skipped :: string where "Skipped = ''skipped''"

definition Unstable :: string where "Unstable = ''unstable''"

definition makeCanvasContext :: "canvas_host \<Rightarrow> (canvas \<times> bool) io" where
  "makeCanvasContext h =
     (let canvas = setHeight 1 (setWidth 1 createCanvas)
      in bindIO (ask (\<lambda>t. getContext2d h t canvas)) (\<lambda>context. ret (canvas, context)))"

definition isSupported :: "canvas_host \<Rightarrow> canvas \<Rightarrow> bool \<Rightarrow> bool" where
  "isSupported h canvas context = (context \<and> hasToDataURL h)"

text \<open>
  A function of the source that draws on the canvas it is given returns, in the model, the
  canvas as it leaves it.
\<close>

definition doesSupportWinding :: "canvas_host \<Rightarrow> canvas \<Rightarrow> (bool \<times> canvas) io" where
  "doesSupportWinding h canvas =
     (let c = draw [Rect 0 0 10 10, Rect 2 2 6 6] canvas
      in bindIO (ask (\<lambda>t. isPointInPath h t c 5 5 ''evenodd'')) (\<lambda>inside. ret (\<not> inside, c)))"

text \<open>The printed text in UTF-16 code units; the last two are the emoji.\<close>

definition printedText :: "nat list" where
  "printedText = map of_char ''Cwm fjordbank gly '' @ [55357, 56835]"

definition renderTextImage :: "canvas \<Rightarrow> canvas" where
  "renderTextImage canvas =
     draw [TextBaseline ''alphabetic'',
           FillStyle ''#f60'',
           FillRect 100 1 62 20,
           FillStyle ''#069'',
           Font ''11pt \"Times New Roman\"'',
           FillText printedText 2 15,
           FillStyle ''rgba(102, 204, 0, 0.2)'',
           Font ''18pt Arial'',
           FillText printedText 4 45]
       (setHeight 60 (setWidth 240 canvas))"

definition circle :: "string \<Rightarrow> real \<Rightarrow> real \<Rightarrow> draw_cmd list" where
  "circle color x y = [FillStyle color, BeginPath, Arc x y 40 0 (pi * 2) True, ClosePath, Fill]"

definition renderGeometryImage :: "canvas \<Rightarrow> canvas" where
  "renderGeometryImage canvas =
     draw ([GlobalCompositeOperation ''multiply'']
           @ concat (map (\<lambda>(color, x, y). circle color x y)
               [(''#f2f'', 40, 40), (''#2ff'', 80, 40), (''#ff2'', 60, 80)])
           @ [FillStyle ''#f9c'',
              Arc 60 60 60 0 (pi * 2) True,
              Arc 60 60 20 0 (pi * 2) True,
              FillRule ''evenodd''])
       (setHeight 110 (setWidth 122 canvas))"

definition canvasToString :: "canvas_host \<Rightarrow> canvas \<Rightarrow> string io" where
  "canvasToString h canvas = askE (\<lambda>t. toDataURL h t canvas)"

definition renderImages :: "canvas_host \<Rightarrow> canvas \<Rightarrow> ((string \<times> string) \<times> canvas) io" where
  "renderImages h canvas =
     (let c1 = renderTextImage canvas in
      bindIO (canvasToString h c1) (\<lambda>textImage1.
      bindIO (canvasToString h c1) (\<lambda>textImage2.
        if textImage1 \<noteq> textImage2 then ret ((Unstable, Unstable), c1)
        else (let c2 = renderGeometryImage c1 in
              bindIO (canvasToString h c2) (\<lambda>geometryImage.
                ret ((geometryImage, textImage1), c2))))))"

definition getUnstableCanvasFingerprint :: "canvas_host \<Rightarrow> bool \<Rightarrow> CanvasFingerprint io" where
  "getUnstableCanvasFingerprint h skipImages =
     bindIO (makeCanvasContext h) (\<lambda>(canvas, context).
       if \<not> isSupported h canvas context
       then ret \<lparr>winding = False, geometry = Unsupported, text_image = Unsupported\<rparr>
       else bindIO (doesSupportWinding h canvas) (\<lambda>(w, c).
              if skipImages
              then ret \<lparr>winding = w, geometry = Skipped, text_image = Skipped\<rparr>
              else bindIO (renderImages h c) (\<lambda>(images, c').
                     ret \<lparr>winding = w, geometry = fst images, text_image = snd images\<rparr>)))"

definition doesBrowserPerformAntifingerprinting :: "canvas_host \<Rightarrow> bool" where
  "doesBrowserPerformAntifingerprinting h = (isWebKit h \<and> isWebKit616OrNewer h \<and> isSafariWebKit h)"

definition DENOISE_SCALE :: nat where
  "DENOISE_SCALE = 3"

text \<open>Reading a typed array: an index past the end gives \<open>undefined\<close>, stored as 0.\<close>

definition rd :: "u8 list \<Rightarrow> nat \<Rightarrow> u8" where
  "rd d i = (if i < length d then d ! i else 0)"

text \<open>The body of the inner loop of step 6: the four bytes of one pixel.\<close>

definition copyPixel :: "u8 list \<Rightarrow> nat \<Rightarrow> nat \<Rightarrow> nat \<Rightarrow> nat \<Rightarrow> u8 list \<Rightarrow> u8 list" where
  "copyPixel scaledData scaledWidth originalWidth y x denoisedData =
     (let scaledX = x * DENOISE_SCALE + DENOISE_SCALE div 2;
          scaledY = y * DENOISE_SCALE + DENOISE_SCALE div 2;
          scaledIdx = (scaledY * scaledWidth + scaledX) * 4;
          originalIdx = (y * originalWidth + x) * 4
      in denoisedData
           [originalIdx := rd scaledData scaledIdx,
            originalIdx + 1 := rd scaledData (scaledIdx + 1),
            originalIdx + 2 := rd scaledData (scaledIdx + 2),
            originalIdx + 3 := rd scaledData (scaledIdx + 3)])"

text \<open>
  Step 6: the new zero-filled array and the two nested loops \<open>for y\<close>, \<open>for x\<close> over the
  original size.
\<close>

definition extractCenters :: "u8 list \<Rightarrow> nat \<Rightarrow> nat \<Rightarrow> nat \<Rightarrow> u8 list" where
  "extractCenters scaledData scaledWidth originalWidth originalHeight =
     foldl (\<lambda>acc y. foldl (\<lambda>acc x. copyPixel scaledData scaledWidth originalWidth y x acc)
                        acc [0..<originalWidth])
       (replicate (originalWidth * originalHeight * 4) 0)
       [0..<originalHeight]"

text \<open>\<open>target.set(source)\<close> on typed arrays: a source longer than the target is a RangeError.\<close>

definition typedArraySet :: "u8 list \<Rightarrow> u8 list \<Rightarrow> thrown + u8 list" where
  "typedArraySet target source =
     (if length source \<le> length target then Inr (source @ drop (length source) target)
      else Inl (ErrorObj ''offset is out of bounds''))"

text \<open>\<open>context.createImageData(w, h)\<close>: transparent black, four bytes a pixel.\<close>

definition createImageData :: "nat \<Rightarrow> nat \<Rightarrow> u8 list" where
  "createImageData w v = replicate (w * v * 4) 0"

text \<open>
  Steps 1 to 7 of \<open>getDenoisedCanvasData\<close>. The host is asked four times at most: for the
  context of the scaled canvas, for its pixels, for the context of the output canvas, and for
  the encoding that is returned.
\<close>

definition getDenoisedCanvasData ::
  "canvas_host \<Rightarrow> canvas \<Rightarrow> (canvas \<Rightarrow> canvas) \<Rightarrow> (string \<times> canvas) io" where
  "getDenoisedCanvasData h canvas renderFn =
     (let c = renderFn canvas;
          originalWidth = width c;
          originalHeight = height c;
          scaledCanvas = setHeight (originalHeight * DENOISE_SCALE)
                           (setWidth (originalWidth * DENOISE_SCALE) createCanvas)
      in bindIO (ask (\<lambda>t. getContext2d h t scaledCanvas)) (\<lambda>scaledContext.
           if \<not> scaledContext then bindIO (askE (\<lambda>t. toDataURL h t c)) (\<lambda>url. ret (url, c))
           else
             (let scaled = draw [ImageSmoothingEnabled False,
                                 DrawImage c 0 0 (real (width scaledCanvas)) (real (height scaledCanvas))]
                             scaledCanvas
              in bindIO (askE (\<lambda>t. getImageData h t scaled 0 0 (width scaled) (height scaled)))
                   (\<lambda>scaledImageData.
                 (let denoisedData =
                        extractCenters scaledImageData (width scaled) originalWidth originalHeight;
                      outputCanvas = setHeight originalHeight (setWidth originalWidth createCanvas)
                  in bindIO (ask (\<lambda>t. getContext2d h t outputCanvas)) (\<lambda>outputContext.
                       if \<not> outputContext
                       then bindIO (askE (\<lambda>t. toDataURL h t c)) (\<lambda>url. ret (url, c))
                       else
                         (case typedArraySet (createImageData originalWidth originalHeight) denoisedData of
                            Inl e \<Rightarrow> (\<lambda>t. Inl e)
                          | Inr outputImageData \<Rightarrow>
                              bindIO (askE (\<lambda>t. toDataURL h t
                                        (draw [PutImageData outputImageData originalWidth originalHeight 0 0]
                                           outputCanvas)))
                                (\<lambda>url. ret (url, c)))))))))"

definition getNoiseResistantCanvasFingerprint :: "canvas_host \<Rightarrow> CanvasFingerprint io" where
  "getNoiseResistantCanvasFingerprint h =
     bindIO (makeCanvasContext h) (\<lambda>(canvas, context).
       if \<not> isSupported h canvas context
       then ret \<lparr>winding = False, geometry = Unsupported, text_image = Unsupported\<rparr>
       else bindIO (doesSupportWinding h canvas) (\<lambda>(w, c).
            bindIO (getDenoisedCanvasData h c renderGeometryImage) (\<lambda>(g, c1).
            bindIO (getDenoisedCanvasData h c1 renderTextImage) (\<lambda>(tx, c2).
              ret \<lparr>winding = w, geometry = g, text_image = tx\<rparr>))))"

definition getCanvasFingerprint :: "canvas_host \<Rightarrow> CanvasFingerprint io" where
  "getCanvasFingerprint h =
     (if doesBrowserPerformAntifingerprinting h then getNoiseResistantCanvasFingerprint h
      else getUnstableCanvasFingerprint h False)"

section \<open>Screen media queries\<close>

datatype dimension = Width | Height

text \<open>
  A media query in parsed form: \<open>MinDim Width 640\<close> is the string \<open>(min-width: 640px)\<close>,
  \<open>MinResolution 1.5\<close> is \<open>(min-resolution: 1.5dppx)\<close>, \<open>MinColor 8\<close> is \<open>(min-color: 8)\<close> and
  \<open>Feature ''hover'' ''none''\<close> is \<open>(hover: none)\<close>.
\<close>

datatype media_query =
    MinDim dimension nat
  | MaxDim dimension nat
  | MinResolution real
  | MinColor nat
  | Feature string string

text \<open>
  The host: whether a query matches, and \<open>window.devicePixelRatio\<close> (\<open>None\<close> when it is
  not a number).
\<close>

record mq_host =
  matchMedia :: "nat \<Rightarrow> media_query \<Rightarrow> bool"
  devicePixelRatio :: "nat \<Rightarrow> real option"

text \<open>
  The two loops of \<open>detectDimensionRange\<close>. Each takes the tick at which it starts and
  returns its bound with the tick at which it ends; every iteration asks the host once.
\<close>

function lowerBound :: "mq_host \<Rightarrow> dimension \<Rightarrow> nat \<Rightarrow> nat \<Rightarrow> nat \<Rightarrow> nat \<times> nat" where
  "lowerBound h d low high t =
     (if high - low > 10 then
        (let mid = (low + high) div 2 in
         if matchMedia h t (MinDim d mid) then lowerBound h d mid high (Suc t)
         else lowerBound h d low mid (Suc t))
      else (low, t))"
  by pat_completeness auto

termination
  by (relation "measure (\<lambda>(h, d, low, high, t). high - low)") auto

function upperBound :: "mq_host \<Rightarrow> dimension \<Rightarrow> nat \<Rightarrow> nat \<Rightarrow> nat \<Rightarrow> nat \<times> nat" where
  "upperBound h d low high t =
     (if high - low > 10 then
        (let mid = (low + high) div 2 in
         if matchMedia h t (MaxDim d mid) then upperBound h d low mid (Suc t)
         else upperBound h d mid high (Suc t))
      else (high, t))"
  by pat_completeness auto

termination
  by (relation "measure (\<lambda>(h, d, low, high, t). high - low)") auto

declare lowerBound.simps [simp del] upperBound.simps [simp del]

definition detectDimensionRange :: "mq_host \<Rightarrow> dimension \<Rightarrow> nat \<Rightarrow> (nat \<times> nat) \<times> nat" where
  "detectDimensionRange h d t =
     (case lowerBound h d 0 8192 t of (minValue, t1) \<Rightarrow>
      case upperBound h d 0 8192 t1 of (maxValue, t2) \<Rightarrow>
        ((minValue, maxValue), t2))"

text \<open>A computation that cannot throw, among those that can.\<close>

definition liftT :: "(nat \<Rightarrow> 'a \<times> nat) \<Rightarrow> 'a io" where
  "liftT f t = Inr (f t)"

text \<open>
  The loop \<open>for (let i = xs.length - 1; i >= 0; i--)\<close> that returns the first entry whose
  query matches; the last argument is \<open>i + 1\<close>.
\<close>

fun scanDown :: "mq_host \<Rightarrow> ('a \<Rightarrow> media_query) \<Rightarrow> 'a list \<Rightarrow> nat \<Rightarrow> 'a option io" where
  "scanDown h q xs 0 = ret None"
| "scanDown h q xs (Suc i) =
     bindIO (ask (\<lambda>t. matchMedia h t (q (xs ! i)))) (\<lambda>m.
       if m then ret (Some (xs ! i)) else scanDown h q xs i)"

definition detectPixelRatio :: "mq_host \<Rightarrow> real io" where
  "detectPixelRatio h =
     (let ratios = [0.5, 0.75, 1, 1.25, 1.5, 1.75, 2, 2.25, 2.5, 2.75, 3, 3.5, 4]
      in bindIO (scanDown h MinResolution ratios (length ratios)) (\<lambda>found.
           case found of
             Some r \<Rightarrow> ret r
           | None \<Rightarrow>
               bindIO (ask (\<lambda>t. devicePixelRatio h t)) (\<lambda>dpr.
                 ret (case dpr of None \<Rightarrow> 1 | Some x \<Rightarrow> if x = 0 then 1 else x))))"

definition detectColorBits :: "mq_host \<Rightarrow> nat io" where
  "detectColorBits h =
     (let depths = [1, 4, 8, 12, 16, 24, 30, 48]
      in bindIO (scanDown h MinColor depths (length depths)) (\<lambda>found.
           ret (case found of Some b \<Rightarrow> b | None \<Rightarrow> 0)))"

text \<open>
  A chain of \<open>if (matchMedia('(name: value)').matches) return 'value'\<close> over the values in
  the order given, ending in \<open>return undefined\<close>.
\<close>

fun firstFeature :: "mq_host \<Rightarrow> string \<Rightarrow> string list \<Rightarrow> string option io" where
  "firstFeature h name [] = ret None"
| "firstFeature h name (v # vs) =
     bindIO (ask (\<lambda>t. matchMedia h t (Feature name v))) (\<lambda>m.
       if m then ret (Some v) else firstFeature h name vs)"

definition detectOrientation :: "mq_host \<Rightarrow> string option io" where
  "detectOrientation h = firstFeature h ''orientation'' [''portrait'', ''landscape'']"

definition detectDisplayMode :: "mq_host \<Rightarrow> string option io" where
  "detectDisplayMode h =
     firstFeature h ''display-mode'' [''fullscreen'', ''standalone'', ''minimal-ui'', ''browser'']"

definition detectPointer :: "mq_host \<Rightarrow> string option io" where
  "detectPointer h = firstFeature h ''pointer'' [''none'', ''coarse'', ''fine'']"

definition detectHover :: "mq_host \<Rightarrow> string option io" where
  "detectHover h = firstFeature h ''hover'' [''none'', ''hover'']"

definition detectAnyPointer :: "mq_host \<Rightarrow> string option io" where
  "detectAnyPointer h = firstFeature h ''any-pointer'' [''fine'', ''coarse'', ''none'']"

definition detectAnyHover :: "mq_host \<Rightarrow> string option io" where
  "detectAnyHover h = firstFeature h ''any-hover'' [''hover'', ''none'']"

definition detectOverflowBlock :: "mq_host \<Rightarrow> string option io" where
  "detectOverflowBlock h = firstFeature h ''overflow-block'' [''none'', ''scroll'', ''paged'']"

definition detectOverflowInline :: "mq_host \<Rightarrow> string option io" where
  "detectOverflowInline h = firstFeature h ''overflow-inline'' [''none'', ''scroll'']"

definition detectUpdate :: "mq_host \<Rightarrow> string option io" where
  "detectUpdate h = firstFeature h ''update'' [''none'', ''slow'', ''fast'']"

definition detectScripting :: "mq_host \<Rightarrow> string option io" where
  "detectScripting h = firstFeature h ''scripting'' [''none'', ''initial-only'', ''enabled'']"

record ScreenMediaQueries =
  viewportWidth :: "nat \<times> nat"
  viewportHeight :: "nat \<times> nat"
  pixelRatio :: real
  colorBits :: nat
  orientation :: "string option"
  displayMode :: "string option"
  pointer :: "string option"
  hover :: "string option"
  anyPointer :: "string option"
  anyHover :: "string option"
  overflowBlock :: "string option"
  overflowInline :: "string option"
  update :: "string option"
  scripting :: "string option"

definition getScreenMediaQueries :: "mq_host \<Rightarrow> ScreenMediaQueries io" where
  "getScreenMediaQueries h =
     bindIO (liftT (detectDimensionRange h Width)) (\<lambda>vw.
     bindIO (liftT (detectDimensionRange h Height)) (\<lambda>vh.
     bindIO (detectPixelRatio h) (\<lambda>pr.
     bindIO (detectColorBits h) (\<lambda>cb.
     bindIO (detectOrientation h) (\<lambda>ori.
     bindIO (detectDisplayMode h) (\<lambda>dm.
     bindIO (detectPointer h) (\<lambda>po.
     bindIO (detectHover h) (\<lambda>ho.
     bindIO (detectAnyPointer h) (\<lambda>ap.
     bindIO (detectAnyHover h) (\<lambda>ah.
     bindIO (detectOverflowBlock h) (\<lambda>ob.
     bindIO (detectOverflowInline h) (\<lambda>oi.
     bindIO (detectUpdate h) (\<lambda>up.
     bindIO (detectScripting h) (\<lambda>sc.
       ret \<lparr>viewportWidth = vw, viewportHeight = vh, pixelRatio = pr, colorBits = cb,
            orientation = ori, displayMode = dm, pointer = po, hover = ho,
            anyPointer = ap, anyHover = ah, overflowBlock = ob, overflowInline = oi,
            update = up, scripting = sc\<rparr>))))))))))))))"

section \<open>Strings and regular expressions of the host language\<close>

text \<open>
  Strings are lists of characters. The source only inspects ASCII characters of a
  candidate line; any other character matches no class of the expression below.
\<close>

definition endsWith :: "string \<Rightarrow> string \<Rightarrow> bool" where
  "endsWith s suffix = (length suffix \<le> length s \<and> drop (length s - length suffix) s = suffix)"

definition startsWith :: "string \<Rightarrow> string \<Rightarrow> bool" where
  "startsWith s p = (take (length p) s = p)"

definition includes_chr :: "string \<Rightarrow> char \<Rightarrow> bool" where
  "includes_chr s c = (c \<in> set s)"

definition toLowerCase :: "string \<Rightarrow> string" where
  "toLowerCase s =
     map (\<lambda>c. case map_of (zip ''ABCDEFGHIJKLMNOPQRSTUVWXYZ'' ''abcdefghijklmnopqrstuvwxyz'') c of
                 None \<Rightarrow> c | Some l \<Rightarrow> l) s"

text \<open>\<open>s.split(sep)\<close> for a one-character separator.\<close>

fun splitOn :: "char \<Rightarrow> string \<Rightarrow> string list" where
  "splitOn sep [] = [[]]"
| "splitOn sep (c # cs) =
     (if c = sep then [] # splitOn sep cs
      else (case splitOn sep cs of [] \<Rightarrow> [[c]] | p # ps \<Rightarrow> (c # p) # ps))"

definition is_digit :: "char \<Rightarrow> bool" where
  "is_digit c = (c \<in> set ''0123456789'')"

definition digit_value :: "char \<Rightarrow> nat" where
  "digit_value c = (case map_of (zip ''0123456789'' [0, 1, 2, 3, 4, 5, 6, 7, 8, 9]) c of
                      None \<Rightarrow> 0 | Some d \<Rightarrow> d)"

definition decimal :: "string \<Rightarrow> nat" where
  "decimal s = foldl (\<lambda>n c. 10 * n + digit_value c) 0 s"

text \<open>
  \<open>Number(s)\<close> on the strings that reach it: a string of decimal digits is its value and
  the empty string is 0. Any other string is taken as \<open>NaN\<close> (\<open>None\<close>); JavaScript also reads
  signs, exponents, radix prefixes and white space there, so on such a string (\<open>0xA\<close> is 10)
  the model is not \<open>Number\<close>. The source applies \<open>Number\<close> in \<open>isPrivateIPv4\<close> only, and
  the handler calls \<open>isPrivateIPv4\<close> only on a match of the expression that has no colon:
  a string whose parts are groups of digits (lemma \<open>isPrivateIPv4_argument\<close>).
\<close>

definition Number :: "string \<Rightarrow> nat option" where
  "Number s = (if list_all is_digit s then Some (decimal s) else None)"

text \<open>
  Regular expressions as the source's literal uses them: a character class, a sequence, an
  alternative and a greedy bounded repetition \<open>r{lo,hi}\<close>.
\<close>

datatype rx = Cls "char \<Rightarrow> bool" | Seq rx rx | Alt rx rx | Rep nat nat rx

text \<open>
  Backtracking matching as a list of successes: every way the expression matches a prefix
  of the input, given by the rest of the input, in the order in which the engine tries
  them (the left alternative first, the longer repetition first). The engine takes the
  first.
\<close>

fun repMatches :: "(string \<Rightarrow> string list) \<Rightarrow> nat \<Rightarrow> nat \<Rightarrow> string \<Rightarrow> string list" where
  "repMatches m lo 0 s = (if lo = 0 then [s] else [])"
| "repMatches m lo (Suc hi) s =
     concat (map (repMatches m (lo - 1) hi) (m s)) @ (if lo = 0 then [s] else [])"

primrec matches :: "rx \<Rightarrow> string \<Rightarrow> string list" where
  "matches (Cls p) = (\<lambda>s. case s of [] \<Rightarrow> [] | c # cs \<Rightarrow> if p c then [cs] else [])"
| "matches (Seq a b) = (\<lambda>s. concat (map (matches b) (matches a s)))"
| "matches (Alt a b) = (\<lambda>s. matches a s @ matches b s)"
| "matches (Rep lo hi a) = repMatches (matches a) lo hi"

text \<open>\<open>s.match(r)\<close> without the global flag: the match at the leftmost position that has one.\<close>

fun match :: "rx \<Rightarrow> string \<Rightarrow> string option" where
  "match r s =
     (case matches r s of
        rest # others \<Rightarrow> Some (take (length s - length rest) s)
      | [] \<Rightarrow> (case s of [] \<Rightarrow> None | c # cs \<Rightarrow> match r cs))"

definition hex_digit :: "char \<Rightarrow> bool" where
  "hex_digit c = (c \<in> set ''abcdef0123456789ABCDEF'')"

definition ipv4_rx :: rx where
  "ipv4_rx = Seq (Rep 1 3 (Cls is_digit)) (Rep 3 3 (Seq (Cls (\<lambda>c. c = CHR ''.'')) (Rep 1 3 (Cls is_digit))))"

definition ipv6_rx :: rx where
  "ipv6_rx = Seq (Rep 1 4 (Cls hex_digit)) (Rep 7 7 (Seq (Cls (\<lambda>c. c = CHR '':'')) (Rep 1 4 (Cls hex_digit))))"

definition ip_rx :: rx where
  "ip_rx = Alt ipv4_rx ipv6_rx"

section \<open>WebRTC source\<close>

record WebRTCIPs =
  localIPv4 :: "string list"
  localIPv6 :: "string list"
  supported :: bool

definition isPrivateIPv4 :: "string \<Rightarrow> bool" where
  "isPrivateIPv4 ip =
     (let parts = map Number (splitOn CHR ''.'' ip) in
      if length parts \<noteq> 4 then False
      else if parts ! 0 = Some 10 then True
      else if parts ! 0 = Some 172
              \<and> (case parts ! 1 of None \<Rightarrow> False | Some n \<Rightarrow> 16 \<le> n)
              \<and> (case parts ! 1 of None \<Rightarrow> False | Some n \<Rightarrow> n \<le> 31) then True
      else if parts ! 0 = Some 192 \<and> parts ! 1 = Some 168 then True
      else if parts ! 0 = Some 169 \<and> parts ! 1 = Some 254 then True
      else False)"

definition isLinkLocalIPv6 :: "string \<Rightarrow> bool" where
  "isLinkLocalIPv6 ip = startsWith (toLowerCase ip) ''fe80:''"

text \<open>
  What a peer-connection constructor of the host does in the synchronous set-up: whether
  the construction, \<open>createDataChannel\<close> or \<open>createOffer\<close> throws.
\<close>

record pc_constructor =
  constructionThrows :: bool
  createDataChannelThrows :: bool
  createOfferThrows :: bool

record rtc_window =
  RTCPeerConnection :: "pc_constructor option"
  webkitRTCPeerConnection :: "pc_constructor option"
  mozRTCPeerConnection :: "pc_constructor option"

text \<open>\<open>a || b\<close> on values that are a constructor or \<open>undefined\<close>.\<close>

definition orElse :: "'a option \<Rightarrow> 'a option \<Rightarrow> 'a option" where
  "orElse a b = (case a of None \<Rightarrow> b | Some x \<Rightarrow> Some x)"

text \<open>
  The state of one call: the object \<open>result\<close> (the promise is resolved with this very
  object), the set \<open>seenIPs\<close>, the flag \<open>resolved\<close>, the number of calls of \<open>resolve\<close> so
  far, whether the timeout is pending, whether the two handlers are installed, whether the
  offer promise with its catch handler exists, and how often the connection was closed.
\<close>

record rtc_state =
  result :: WebRTCIPs
  seenIPs :: "string set"
  resolved :: bool
  resolveCalls :: nat
  timeoutPending :: bool
  handlersInstalled :: bool
  offerStarted :: bool
  closeCalls :: nat

definition finish :: "rtc_state \<Rightarrow> rtc_state" where
  "finish st =
     (if \<not> resolved st then st\<lparr>resolved := True, resolveCalls := resolveCalls st + 1\<rparr> else st)"

definition clearTimeout :: "rtc_state \<Rightarrow> rtc_state" where
  "clearTimeout st = st\<lparr>timeoutPending := False\<rparr>"

definition close_pc :: "rtc_state \<Rightarrow> rtc_state" where
  "close_pc st = st\<lparr>closeCalls := closeCalls st + 1\<rparr>"

definition pushIPv4 :: "string \<Rightarrow> rtc_state \<Rightarrow> rtc_state" where
  "pushIPv4 ip st = st\<lparr>result := (result st)\<lparr>localIPv4 := localIPv4 (result st) @ [ip]\<rparr>\<rparr>"

definition pushIPv6 :: "string \<Rightarrow> rtc_state \<Rightarrow> rtc_state" where
  "pushIPv6 ip st = st\<lparr>result := (result st)\<lparr>localIPv6 := localIPv6 (result st) @ [ip]\<rparr>\<rparr>"

text \<open>The handler \<open>pc.onicecandidate\<close>; \<open>None\<close> is an event without a candidate.\<close>

definition onicecandidate :: "string option \<Rightarrow> rtc_state \<Rightarrow> rtc_state" where
  "onicecandidate candidate st =
     (case candidate of
        None \<Rightarrow> finish (close_pc (clearTimeout st))
      | Some line \<Rightarrow>
          (case match ip_rx line of
             None \<Rightarrow> st
           | Some ip \<Rightarrow>
               if ip \<in> seenIPs st then st
               else (let st1 = st\<lparr>seenIPs := insert ip (seenIPs st)\<rparr> in
                     if endsWith ip ''.local'' then st1
                     else if includes_chr ip CHR '':''
                          then (if \<not> isLinkLocalIPv6 ip then pushIPv6 ip st1 else st1)
                          else (if isPrivateIPv4 ip then pushIPv4 ip st1 else st1))))"

definition onicegatheringstatechange :: "string \<Rightarrow> rtc_state \<Rightarrow> rtc_state" where
  "onicegatheringstatechange iceGatheringState st =
     (if iceGatheringState = ''complete'' then finish (close_pc (clearTimeout st)) else st)"

text \<open>
  What the host can do after the set-up: fire the timeout (once, and only while it is
  pending), deliver a candidate event, change the gathering state, or reject the offer.
  Events reach a handler only when it is installed.
\<close>

datatype rtc_event =
    TimeoutFires
  | IceCandidate "string option"
  | GatheringState string
  | OfferRejected

fun step :: "rtc_state \<Rightarrow> rtc_event \<Rightarrow> rtc_state" where
  "step st TimeoutFires = (if timeoutPending st then finish (st\<lparr>timeoutPending := False\<rparr>) else st)"
| "step st (IceCandidate c) = (if handlersInstalled st then onicecandidate c st else st)"
| "step st (GatheringState g) = (if handlersInstalled st then onicegatheringstatechange g st else st)"
| "step st OfferRejected = (if offerStarted st then finish (clearTimeout st) else st)"

definition catch_setup :: "rtc_state \<Rightarrow> rtc_state" where
  "catch_setup st = finish (clearTimeout st)"

text \<open>The executor of the promise, up to the end of its synchronous run.\<close>

definition PeerConnection :: "rtc_window \<Rightarrow> pc_constructor option" where
  "PeerConnection w =
     orElse (orElse (RTCPeerConnection w) (webkitRTCPeerConnection w)) (mozRTCPeerConnection w)"

definition getWebRTCIPs :: "rtc_window \<Rightarrow> rtc_state" where
  "getWebRTCIPs w =
     (let result0 = \<lparr>localIPv4 = [], localIPv6 = [], supported = False\<rparr>
      in case PeerConnection w of
           None \<Rightarrow>
             \<lparr>result = result0, seenIPs = {}, resolved = False, resolveCalls = 1,
              timeoutPending = False, handlersInstalled = False, offerStarted = False,
              closeCalls = 0\<rparr>
         | Some pc \<Rightarrow>
             (let st = \<lparr>result = result0\<lparr>supported := True\<rparr>, seenIPs = {}, resolved = False,
                        resolveCalls = 0, timeoutPending = True, handlersInstalled = False,
                        offerStarted = False, closeCalls = 0\<rparr>
              in if constructionThrows pc then catch_setup st
                 else (let st1 = st\<lparr>handlersInstalled := True\<rparr> in
                       if createDataChannelThrows pc then catch_setup st1
                       else if createOfferThrows pc then catch_setup st1
                       else st1\<lparr>offerStarted := True\<rparr>)))"

definition after :: "rtc_window \<Rightarrow> rtc_event list \<Rightarrow> rtc_state" where
  "after w events = foldl step (getWebRTCIPs w) events"

section \<open>Notions used in the statements and proofs\<close>

subsection \<open>TLS source\<close>


subsection \<open>Canvas source\<close>

definition initialCanvas :: canvas where
  "initialCanvas = setHeight 1 (setWidth 1 createCanvas)"

definition windingCanvas :: canvas where
  "windingCanvas = draw [Rect 0 0 10 10, Rect 2 2 6 6] initialCanvas"

definition scaledCanvasFor :: "canvas \<Rightarrow> canvas" where
  "scaledCanvasFor c = setHeight (height c * 3) (setWidth (width c * 3) createCanvas)"

definition scaledDrawn :: "canvas \<Rightarrow> canvas" where
  "scaledDrawn c =
     draw [ImageSmoothingEnabled False, DrawImage c 0 0 (real (width c * 3)) (real (height c * 3))]
       (scaledCanvasFor c)"

definition outputCanvasFor :: "canvas \<Rightarrow> canvas" where
  "outputCanvasFor c = setHeight (height c) (setWidth (width c) createCanvas)"

definition outputDrawn :: "canvas \<Rightarrow> u8 list \<Rightarrow> canvas" where
  "outputDrawn c d = draw [PutImageData d (width c) (height c) 0 0] (outputCanvasFor c)"

definition returned :: "thrown + ('a \<times> canvas) \<times> nat \<Rightarrow> thrown + 'a" where
  "returned r = (case r of Inl e \<Rightarrow> Inl e | Inr ((x, c), t) \<Rightarrow> Inr x)"

definition pixel :: "u8 list \<Rightarrow> nat \<Rightarrow> nat \<Rightarrow> nat \<Rightarrow> u8 \<times> u8 \<times> u8 \<times> u8" where
  "pixel d w x y =
     (rd d ((y * w + x) * 4), rd d ((y * w + x) * 4 + 1),
      rd d ((y * w + x) * 4 + 2), rd d ((y * w + x) * 4 + 3))"

definition unsupported :: CanvasFingerprint where
  "unsupported = \<lparr>winding = False, geometry = Unsupported, text_image = Unsupported\<rparr>"

definition geometrySource :: canvas where
  "geometrySource = renderGeometryImage windingCanvas"

definition textCanvas :: canvas where
  "textCanvas = renderTextImage windingCanvas"

definition geometryCanvas :: canvas where
  "geometryCanvas = renderGeometryImage textCanvas"

subsection \<open>Repeated invocations\<close>

definition shift_closed :: "(nat \<Rightarrow> nat \<Rightarrow> bool) \<Rightarrow> bool" where
  "shift_closed S = (\<forall>t1 t2 n. S t1 t2 \<longrightarrow> S (t1 + n) (t2 + n))"

definition lockstep :: "(nat \<Rightarrow> nat \<Rightarrow> bool) \<Rightarrow> 'a io \<Rightarrow> bool" where
  "lockstep S m =
     (\<forall>t1 t2. S t1 t2 \<longrightarrow>
        (case m t1 of
           Inl e \<Rightarrow> m t2 = Inl e
         | Inr (x, u) \<Rightarrow> (\<exists>n. u = t1 + n \<and> m t2 = Inr (x, t2 + n))))"

definition same_canvas_answers :: "canvas_host \<Rightarrow> nat \<Rightarrow> nat \<Rightarrow> bool" where
  "same_canvas_answers h t1 t2 =
     (\<forall>k. getContext2d h (t1 + k) = getContext2d h (t2 + k)
        \<and> isPointInPath h (t1 + k) = isPointInPath h (t2 + k)
        \<and> toDataURL h (t1 + k) = toDataURL h (t2 + k)
        \<and> getImageData h (t1 + k) = getImageData h (t2 + k))"

definition same_mq_answers :: "mq_host \<Rightarrow> nat \<Rightarrow> nat \<Rightarrow> bool" where
  "same_mq_answers h t1 t2 =
     (\<forall>k. matchMedia h (t1 + k) = matchMedia h (t2 + k)
        \<and> devicePixelRatio h (t1 + k) = devicePixelRatio h (t2 + k))"

subsection \<open>The extraction loop, row by row\<close>

definition copyRow :: "u8 list \<Rightarrow> nat \<Rightarrow> nat \<Rightarrow> nat \<Rightarrow> nat \<Rightarrow> u8 list \<Rightarrow> u8 list" where
  "copyRow d sw w y k acc = foldl (\<lambda>acc x. copyPixel d sw w y x acc) acc [0..<k]"

definition copyRows :: "u8 list \<Rightarrow> nat \<Rightarrow> nat \<Rightarrow> nat \<Rightarrow> u8 list \<Rightarrow> u8 list" where
  "copyRows d sw w m acc = foldl (\<lambda>acc y. copyRow d sw w y w acc) acc [0..<m]"

subsection \<open>Screen media queries\<close>

definition monotone_oracle :: "mq_host \<Rightarrow> dimension \<Rightarrow> real \<Rightarrow> bool" where
  "monotone_oracle h d v =
     (\<forall>t m. matchMedia h t (MinDim d m) = (real m \<le> v) \<and> matchMedia h t (MaxDim d m) = (v \<le> real m))"

subsection \<open>WebRTC source\<close>

primrec lang_pow :: "string set \<Rightarrow> nat \<Rightarrow> string set" where
  "lang_pow L 0 = {[]}"
| "lang_pow L (Suc n) = {u @ v | u v. u \<in> L \<and> v \<in> lang_pow L n}"

primrec lang :: "rx \<Rightarrow> string set" where
  "lang (Cls p) = {[c] | c. p c}"
| "lang (Seq a b) = {u @ v | u v. u \<in> lang a \<and> v \<in> lang b}"
| "lang (Alt a b) = lang a \<union> lang b"
| "lang (Rep lo hi a) = (\<Union>n \<in> {lo..hi}. lang_pow (lang a) n)"

text \<open>
  What the handler tests of an element of \<open>localIPv4\<close>: four groups of one to three
  digits separated by dots, the first two of them, read as decimal numbers, in
  \<open>in_private_range\<close>. A group is not bounded by 255 and may begin with a zero.
\<close>

definition digit_group :: "string \<Rightarrow> bool" where
  "digit_group s = (1 \<le> length s \<and> length s \<le> 3 \<and> list_all is_digit s)"

definition in_private_range :: "nat \<Rightarrow> nat \<Rightarrow> bool" where
  "in_private_range a b =
     (a = 10 \<or> (a = 172 \<and> 16 \<le> b \<and> b \<le> 31) \<or> (a = 192 \<and> b = 168) \<or> (a = 169 \<and> b = 254))"

definition private_groups :: "string \<Rightarrow> bool" where
  "private_groups ip =
     (case splitOn CHR ''.'' ip of
        [a, b, c, d] \<Rightarrow>
          digit_group a \<and> digit_group b \<and> digit_group c \<and> digit_group d
          \<and> in_private_range (decimal a) (decimal b)
      | _ \<Rightarrow> False)"

text \<open>
  An IPv4 address in dotted-quad notation: four decimal octets, each at most 255 and
  written without a leading zero, separated by dots; its value is a 32-bit number. A block
  \<open>base/len\<close> holds the addresses that agree with \<open>base\<close> in the first \<open>len\<close> bits. The
  private addresses are those of 10/8, 172.16/12, 192.168/16 and 169.254/16.
\<close>

definition decimal_octet :: "string \<Rightarrow> bool" where
  "decimal_octet s =
     (s \<noteq> [] \<and> list_all is_digit s \<and> (length s = 1 \<or> hd s \<noteq> CHR ''0'') \<and> decimal s \<le> 255)"

definition quad :: "nat \<Rightarrow> nat \<Rightarrow> nat \<Rightarrow> nat \<Rightarrow> nat" where
  "quad a b c d = ((a * 256 + b) * 256 + c) * 256 + d"

definition ipv4_address :: "string \<Rightarrow> nat option" where
  "ipv4_address ip =
     (case splitOn CHR ''.'' ip of
        [a, b, c, d] \<Rightarrow>
          if decimal_octet a \<and> decimal_octet b \<and> decimal_octet c \<and> decimal_octet d
          then Some (quad (decimal a) (decimal b) (decimal c) (decimal d))
          else None
      | _ \<Rightarrow> None)"

definition in_block :: "nat \<Rightarrow> nat \<Rightarrow> nat \<Rightarrow> bool" where
  "in_block n base len = (n div 2 ^ (32 - len) = base div 2 ^ (32 - len))"

definition private_ipv4_address :: "string \<Rightarrow> bool" where
  "private_ipv4_address ip =
     (case ipv4_address ip of
        None \<Rightarrow> False
      | Some n \<Rightarrow> in_block n (quad 10 0 0 0) 8 \<or> in_block n (quad 172 16 0 0) 12
                 \<or> in_block n (quad 192 168 0 0) 16 \<or> in_block n (quad 169 254 0 0) 16)"

definition begins_fe80 :: "string \<Rightarrow> bool" where
  "begins_fe80 ip = (take 5 ip \<in> {''fe80:'', ''fE80:'', ''Fe80:'', ''FE80:''})"

definition ips_ok :: "rtc_state \<Rightarrow> bool" where
  "ips_ok st =
     (distinct (localIPv4 (result st) @ localIPv6 (result st))
      \<and> set (localIPv4 (result st) @ localIPv6 (result st)) \<subseteq> seenIPs st
      \<and> list_all private_groups (localIPv4 (result st))
      \<and> list_all (\<lambda>ip. \<not> begins_fe80 ip) (localIPv6 (result st)))"

definition inert :: "rtc_state \<Rightarrow> bool" where
  "inert st = (\<not> timeoutPending st \<and> \<not> handlersInstalled st \<and> \<not> offerStarted st)"

definition counted :: "rtc_state \<Rightarrow> bool" where
  "counted st = (resolveCalls st = (if resolved st then 1 else 0))"

definition empty_result :: "bool \<Rightarrow> WebRTCIPs" where
  "empty_result s = \<lparr>localIPv4 = [], localIPv6 = [], supported = s\<rparr>"

section \<open>Hosts\<close>

subsection \<open>TLS hosts\<close>









subsection \<open>Canvas hosts\<close>

definition png :: "string \<Rightarrow> string" where
  "png body = ''data:image/png;base64,'' @ body"

text \<open>A host without noise: every readback of a scene gives the same encoding.\<close>

definition chrome :: canvas_host where
  "chrome =
     \<lparr>isWebKit = False, isWebKit616OrNewer = False, isSafariWebKit = False,
      hasToDataURL = True,
      getContext2d = (\<lambda>t c. True),
      isPointInPath = (\<lambda>t c x y r. False),
      toDataURL = (\<lambda>t c. Inr (png (if width c = 240 then ''dGV4dA=='' else ''Z2VvbQ==''))),
      getImageData = (\<lambda>t c a b w v. Inr (replicate (w * v * 4) 0))\<rparr>"

text \<open>A host whose encoding changes with every readback.\<close>

definition samsung :: canvas_host where
  "samsung = chrome\<lparr>toDataURL := (\<lambda>t c. Inr (png (if even t then ''QUFB'' else ''QkJC'')))\<rparr>"

text \<open>A host on the denoise path whose pixel readback changes with every call.\<close>

definition safari17 :: canvas_host where
  "safari17 =
     chrome\<lparr>isWebKit := True, isWebKit616OrNewer := True, isSafariWebKit := True,
            getImageData := (\<lambda>t c a b w v. Inr (replicate (w * v * 4) (if even t then 7 else 9)))\<rparr>"

text \<open>The same host with a readback that throws.\<close>

definition safari_blocked :: canvas_host where
  "safari_blocked =
     safari17\<lparr>getImageData := (\<lambda>t c a b w v. Inl (ErrorObj ''The operation is insecure.''))\<rparr>"

definition no_canvas :: canvas_host where
  "no_canvas = chrome\<lparr>getContext2d := (\<lambda>t c. False)\<rparr>"

text \<open>Hosts that refuse a 2D context: for a canvas wider than 300, and at the third call.\<close>

definition lowmem :: canvas_host where
  "lowmem = safari17\<lparr>getContext2d := (\<lambda>t c. width c \<le> 300)\<rparr>"

definition no_output :: canvas_host where
  "no_output = safari17\<lparr>getContext2d := (\<lambda>t c. t \<noteq> 2)\<rparr>"

text \<open>
  Hosts whose readback throws: \<open>getImageData\<close> on a host that is not on the denoise path;
  the encoding of the geometry scene; the pixels of the scaled text scene; every encoding;
  the encoding of the text scene, on a host that refuses the scaled context, and on one that
  refuses the output context.
\<close>

definition insecure :: thrown where
  "insecure = ErrorObj ''The operation is insecure.''"

definition chrome_blocked :: canvas_host where
  "chrome_blocked = chrome\<lparr>getImageData := (\<lambda>t c a b w v. Inl insecure)\<rparr>"

definition chrome_tainted :: canvas_host where
  "chrome_tainted =
     chrome\<lparr>toDataURL := (\<lambda>t c. if width c = 122 then Inl insecure else toDataURL chrome t c)\<rparr>"

definition safari_text_blocked :: canvas_host where
  "safari_text_blocked =
     safari17\<lparr>getImageData :=
       (\<lambda>t c a b w v. if w = 720 then Inl insecure else getImageData safari17 t c a b w v)\<rparr>"

definition safari_tainted :: canvas_host where
  "safari_tainted = safari17\<lparr>toDataURL := (\<lambda>t c. Inl insecure)\<rparr>"

definition lowmem_tainted :: canvas_host where
  "lowmem_tainted =
     lowmem\<lparr>toDataURL := (\<lambda>t c. if width c = 240 then Inl insecure else toDataURL lowmem t c)\<rparr>"

definition no_output_tainted :: canvas_host where
  "no_output_tainted =
     safari17\<lparr>getContext2d := (\<lambda>t c. width c \<noteq> 240),
              toDataURL := (\<lambda>t c. if width c = 240 then Inl insecure else toDataURL safari17 t c)\<rparr>"

text \<open>A host whose pixel readback numbers the bytes, and a scene of two pixels.\<close>

definition counting :: canvas_host where
  "counting = safari17\<lparr>getImageData := (\<lambda>t c a b w v. Inr (map of_nat [0..<w * v * 4]))\<rparr>"

definition tiny_scene :: "canvas \<Rightarrow> canvas" where
  "tiny_scene c = setHeight 1 (setWidth 2 c)"

subsection \<open>Media-query hosts\<close>

text \<open>A viewport 1280 wide and 719.5 high.\<close>

definition laptop :: mq_host where
  "laptop =
     \<lparr>matchMedia = (\<lambda>t q. case q of
          MinDim d m \<Rightarrow> (case d of Width \<Rightarrow> real m \<le> 1280 | Height \<Rightarrow> real m \<le> 719.5)
        | MaxDim d m \<Rightarrow> (case d of Width \<Rightarrow> 1280 \<le> real m | Height \<Rightarrow> 719.5 \<le> real m)
        | MinResolution r \<Rightarrow> r \<le> 2
        | MinColor b \<Rightarrow> b \<le> 8
        | Feature name v \<Rightarrow> (name, v) \<in> {(''orientation'', ''landscape''), (''pointer'', ''fine'')}),
      devicePixelRatio = (\<lambda>t. Some 2)\<rparr>"

subsection \<open>WebRTC hosts\<close>

definition working_pc :: pc_constructor where
  "working_pc = \<lparr>constructionThrows = False, createDataChannelThrows = False, createOfferThrows = False\<rparr>"

definition firefox_window :: rtc_window where
  "firefox_window =
     \<lparr>RTCPeerConnection = None, webkitRTCPeerConnection = None, mozRTCPeerConnection = Some working_pc\<rparr>"

definition no_webrtc :: rtc_window where
  "no_webrtc = \<lparr>RTCPeerConnection = None, webkitRTCPeerConnection = None, mozRTCPeerConnection = None\<rparr>"

definition legacy_window :: rtc_window where
  "legacy_window =
     \<lparr>RTCPeerConnection = None,
      webkitRTCPeerConnection = Some (working_pc\<lparr>createOfferThrows := True\<rparr>),
      mozRTCPeerConnection = None\<rparr>"

definition gathering :: "rtc_event list" where
  "gathering =
     [IceCandidate (Some ''candidate:1 1 udp 9 192.168.1.5 5 typ host''),
      IceCandidate (Some ''candidate:1 1 udp 9 192.168.1.5 5 typ host''),
      IceCandidate (Some ''candidate:2 1 udp 9 8.8.8.8 5 typ srflx''),
      IceCandidate (Some ''candidate:3 1 udp 9 FE80:0:0:0:0:0:0:1 5 typ host''),
      IceCandidate (Some ''candidate:4 1 udp 9 fd00:0:0:0:0:0:0:1 5 typ host''),
      IceCandidate None,
      TimeoutFires]"

text \<open>A candidate whose address has groups above 255, and the end of the gathering.\<close>

definition malformed_gathering :: "rtc_event list" where
  "malformed_gathering =
     [IceCandidate (Some ''candidate:1 1 udp 9 192.168.999.999 5 typ host''),
      IceCandidate None]"

section \<open>Properties of the TLS source\<close>






text \<open>
  C10. Every call of \<open>configureTLSFingerprint\<close> sets the configuration to the defaults
  (endpoint \<open>undefined\<close>, timeout 3000) overwritten by the properties present in the
  options, whatever the configuration was before: after a call with only an endpoint that
  follows a call with only the timeout 5000, the timeout is 3000 again.
\<close>

theorem configureTLSFingerprint_replaces:
  "configureTLSFingerprint options old =
     \<lparr>endpoint = (case endpoint options of None \<Rightarrow> Some None | Some v \<Rightarrow> Some v),
      timeout = (case timeout options of None \<Rightarrow> Some (Some 3000) | Some v \<Rightarrow> Some v)\<rparr>
   \<and> configureTLSFingerprint options old = configureTLSFingerprint options old'
   \<and> timeout (configureTLSFingerprint \<lparr>endpoint = Some (Some e), timeout = None\<rparr>
        (configureTLSFingerprint \<lparr>endpoint = None, timeout = Some (Some 5000)\<rparr> old))
       = Some (Some 3000)
   \<and> effectiveTimeout (configureTLSFingerprint \<lparr>endpoint = Some (Some e), timeout = None\<rparr>
        (configureTLSFingerprint \<lparr>endpoint = None, timeout = Some (Some 5000)\<rparr> old)) = 3000
   \<and> effectiveTimeout (configureTLSFingerprint \<lparr>endpoint = None, timeout = Some (Some 5000)\<rparr> old)
       = 5000"
  by (simp add: configureTLSFingerprint_def spread_def defaultOptions_def effectiveTimeout_def
      read_prop_def split: option.split)

section \<open>Properties of the media-query search\<close>

lemma lowerBound_step:
  "high - low > 10 \<Longrightarrow>
   lowerBound h d low high t =
     (if matchMedia h t (MinDim d ((low + high) div 2))
      then lowerBound h d ((low + high) div 2) high (Suc t)
      else lowerBound h d low ((low + high) div 2) (Suc t))"
  by (subst lowerBound.simps) (simp add: Let_def)

lemma lowerBound_stop: "\<not> high - low > 10 \<Longrightarrow> lowerBound h d low high t = (low, t)"
  by (subst lowerBound.simps) simp

lemma upperBound_step:
  "high - low > 10 \<Longrightarrow>
   upperBound h d low high t =
     (if matchMedia h t (MaxDim d ((low + high) div 2))
      then upperBound h d low ((low + high) div 2) (Suc t)
      else upperBound h d ((low + high) div 2) high (Suc t))"
  by (subst upperBound.simps) (simp add: Let_def)

lemma upperBound_stop: "\<not> high - low > 10 \<Longrightarrow> upperBound h d low high t = (high, t)"
  by (subst upperBound.simps) simp

text \<open>Whatever the host answers, both searches stay inside the interval they start from.\<close>

lemma lowerBound_range:
  "low \<le> high \<Longrightarrow>
   low \<le> fst (lowerBound h d low high t) \<and> fst (lowerBound h d low high t) \<le> high"
proof (induction "high - low" arbitrary: low high t rule: less_induct)
  case less
  show ?case
  proof (cases "high - low > 10")
    case False
    with less.prems show ?thesis by (simp add: lowerBound_stop)
  next
    case True
    let ?mid = "(low + high) div 2"
    have m: "low < ?mid" "?mid < high" using True by auto
    have up: "?mid \<le> fst (lowerBound h d ?mid high (Suc t)) \<and> fst (lowerBound h d ?mid high (Suc t)) \<le> high"
      using less.hyps [of high ?mid "Suc t"] m by simp
    have dn: "low \<le> fst (lowerBound h d low ?mid (Suc t)) \<and> fst (lowerBound h d low ?mid (Suc t)) \<le> ?mid"
      using less.hyps [of ?mid low "Suc t"] m by simp
    show ?thesis
      using up dn m by (simp add: lowerBound_step [OF True])
  qed
qed

lemma upperBound_range:
  "low \<le> high \<Longrightarrow>
   low \<le> fst (upperBound h d low high t) \<and> fst (upperBound h d low high t) \<le> high"
proof (induction "high - low" arbitrary: low high t rule: less_induct)
  case less
  show ?case
  proof (cases "high - low > 10")
    case False
    with less.prems show ?thesis by (simp add: upperBound_stop)
  next
    case True
    let ?mid = "(low + high) div 2"
    have m: "low < ?mid" "?mid < high" using True by auto
    have up: "?mid \<le> fst (upperBound h d ?mid high (Suc t)) \<and> fst (upperBound h d ?mid high (Suc t)) \<le> high"
      using less.hyps [of high ?mid "Suc t"] m by simp
    have dn: "low \<le> fst (upperBound h d low ?mid (Suc t)) \<and> fst (upperBound h d low ?mid (Suc t)) \<le> ?mid"
      using less.hyps [of ?mid low "Suc t"] m by simp
    show ?thesis
      using up dn m by (simp add: upperBound_step [OF True])
  qed
qed

text \<open>Once the lower end is the true value, the lower-bound search keeps it.\<close>

lemma lowerBound_exact:
  "monotone_oracle h d v \<Longrightarrow> real low = v \<Longrightarrow> fst (lowerBound h d low high t) = low"
proof (induction "high - low" arbitrary: high t rule: less_induct)
  case less
  show ?case
  proof (cases "high - low > 10")
    case False
    then show ?thesis by (simp add: lowerBound_stop)
  next
    case True
    let ?mid = "(low + high) div 2"
    have m: "low < ?mid" "?mid < high" using True by auto
    have no: "\<not> matchMedia h t (MinDim d ?mid)"
      using less.prems m(1) by (simp add: monotone_oracle_def)
    have "fst (lowerBound h d low ?mid (Suc t)) = low"
      using less.hyps [of ?mid "Suc t"] less.prems m by simp
    then show ?thesis using no by (simp add: lowerBound_step [OF True])
  qed
qed

lemma upperBound_exact:
  "monotone_oracle h d v \<Longrightarrow> real high = v \<Longrightarrow> fst (upperBound h d low high t) = high"
proof (induction "high - low" arbitrary: low t rule: less_induct)
  case less
  show ?case
  proof (cases "high - low > 10")
    case False
    then show ?thesis by (simp add: upperBound_stop)
  next
    case True
    let ?mid = "(low + high) div 2"
    have m: "low < ?mid" "?mid < high" using True by auto
    have no: "\<not> matchMedia h t (MaxDim d ?mid)"
      using less.prems m(2) by (simp add: monotone_oracle_def)
    have "fst (upperBound h d ?mid high (Suc t)) = high"
      using less.hyps [of ?mid "Suc t"] less.prems m by simp
    then show ?thesis using no by (simp add: upperBound_step [OF True])
  qed
qed

text \<open>Both searches bisect the same intervals until one of them hits the true value.\<close>

lemma bounds_bracket:
  assumes "monotone_oracle h d v"
  shows "real low \<le> v \<Longrightarrow> v \<le> real high \<Longrightarrow>
     real (fst (lowerBound h d low high t)) \<le> v
   \<and> v \<le> real (fst (upperBound h d low high t'))
   \<and> fst (upperBound h d low high t') - fst (lowerBound h d low high t) \<le> 10"
proof (induction "high - low" arbitrary: low high t t' rule: less_induct)
  case less
  show ?case
  proof (cases "high - low > 10")
    case False
    with less.prems show ?thesis by (simp add: lowerBound_stop upperBound_stop)
  next
    case True
    let ?mid = "(low + high) div 2"
    have m: "low < ?mid" "?mid < high" using True by auto
    consider (below) "real ?mid < v" | (hit) "real ?mid = v" | (above) "v < real ?mid"
      by linarith
    then show ?thesis
    proof cases
      case below
      have a: "matchMedia h t (MinDim d ?mid)" "\<not> matchMedia h t' (MaxDim d ?mid)"
        using assms below by (simp_all add: monotone_oracle_def)
      have "high - ?mid < high - low" using m by simp
      from less.hyps [OF this, of "Suc t" "Suc t'"] below less.prems a show ?thesis
        by (simp add: lowerBound_step [OF True] upperBound_step [OF True])
    next
      case above
      have a: "\<not> matchMedia h t (MinDim d ?mid)" "matchMedia h t' (MaxDim d ?mid)"
        using assms above by (simp_all add: monotone_oracle_def)
      have "?mid - low < high - low" using m by simp
      from less.hyps [OF this, of "Suc t" "Suc t'"] above less.prems a show ?thesis
        by (simp add: lowerBound_step [OF True] upperBound_step [OF True])
    next
      case hit
      have a: "matchMedia h t (MinDim d ?mid)" "matchMedia h t' (MaxDim d ?mid)"
        using assms hit by (simp_all add: monotone_oracle_def)
      have "fst (lowerBound h d ?mid high (Suc t)) = ?mid"
        by (rule lowerBound_exact [OF assms hit])
      moreover have "fst (upperBound h d low ?mid (Suc t')) = ?mid"
        by (rule upperBound_exact [OF assms hit])
      ultimately show ?thesis using a hit
        by (simp add: lowerBound_step [OF True] upperBound_step [OF True])
    qed
  qed
qed

text \<open>
  C2. For a dimension \<open>d\<close> and a host whose \<open>matchMedia\<close> answers \<open>(min-d: m px)\<close> exactly
  when \<open>m \<le> v\<close> and \<open>(max-d: m px)\<close> exactly when \<open>v \<le> m\<close>, for a true value \<open>v\<close> in
  \<open>[0, 8192]\<close> (a real number, so also a fractional one), the pair \<open>(lo, hi)\<close> that
  \<open>detectDimensionRange\<close> returns satisfies \<open>0 \<le> lo \<le> hi \<le> 8192\<close>, \<open>hi - lo \<le> 10\<close> and
  \<open>lo \<le> v \<le> hi\<close>.
\<close>

theorem detectDimensionRange_bracket:
  assumes "monotone_oracle h d v" and "0 \<le> v" and "v \<le> 8192"
  shows "case fst (detectDimensionRange h d t) of (lo, hi) \<Rightarrow>
           0 \<le> lo \<and> lo \<le> hi \<and> hi \<le> 8192 \<and> hi - lo \<le> 10 \<and> real lo \<le> v \<and> v \<le> real hi"
proof -
  obtain lo t1 where l: "lowerBound h d 0 8192 t = (lo, t1)" by (cases "lowerBound h d 0 8192 t")
  obtain hi t2 where u: "upperBound h d 0 8192 t1 = (hi, t2)" by (cases "upperBound h d 0 8192 t1")
  have b: "real lo \<le> v \<and> v \<le> real hi \<and> hi - lo \<le> 10"
    using bounds_bracket [OF assms(1), of 0 8192 t t1] assms(2,3) l u by simp
  have r: "hi \<le> 8192" using upperBound_range [of 0 8192 h d t1] u by simp
  have "lo \<le> hi" using b by linarith
  then show ?thesis using b r by (simp add: detectDimensionRange_def l u)
qed

theorem detectDimensionRange_bracket_witness:
  "monotone_oracle laptop Width 1280
 \<and> fst (detectDimensionRange laptop Width 0) = (1280, 1280)
 \<and> monotone_oracle laptop Height 719.5
 \<and> fst (detectDimensionRange laptop Height 20) = (712, 720)
 \<and> (case fst (detectDimensionRange laptop Height 20) of (lo, hi) \<Rightarrow>
       0 \<le> lo \<and> lo \<le> hi \<and> hi \<le> 8192 \<and> hi - lo \<le> 10 \<and> real lo \<le> 719.5 \<and> 719.5 \<le> real hi)"
proof -
  have a: "monotone_oracle laptop Width 1280" "monotone_oracle laptop Height 719.5"
    by (simp_all add: monotone_oracle_def laptop_def)
  have w: "fst (detectDimensionRange laptop Width 0) = (1280, 1280)"
    by (simp add: detectDimensionRange_def laptop_def lowerBound.simps upperBound.simps Let_def)
  have v: "fst (detectDimensionRange laptop Height 20) = (712, 720)"
    by (simp add: detectDimensionRange_def laptop_def lowerBound.simps upperBound.simps Let_def)
  from detectDimensionRange_bracket [OF a(2), of 20] detectDimensionRange_bracket [OF a(1), of 0] a w v
  show ?thesis by simp
qed

section \<open>Invocations in step\<close>

text \<open>
  Two runs of a computation are in step when, started at two ticks at which the host
  answers alike from then on, they end alike and have asked the host equally often. Every
  computation built from host calls, \<open>ret\<close> and \<open>bindIO\<close> runs in step with itself.
\<close>

lemma lockstepI:
  assumes "\<And>t1 t2 e. S t1 t2 \<Longrightarrow> m t1 = Inl e \<Longrightarrow> m t2 = Inl e"
    and "\<And>t1 t2 x u. S t1 t2 \<Longrightarrow> m t1 = Inr (x, u) \<Longrightarrow> \<exists>n. u = t1 + n \<and> m t2 = Inr (x, t2 + n)"
  shows "lockstep S m"
  unfolding lockstep_def
proof (intro allI impI)
  fix t1 t2 assume s: "S t1 t2"
  show "case m t1 of Inl e \<Rightarrow> m t2 = Inl e
        | Inr (x, u) \<Rightarrow> \<exists>n. u = t1 + n \<and> m t2 = Inr (x, t2 + n)"
  proof (cases "m t1")
    case (Inl e)
    with assms(1) [OF s] show ?thesis by simp
  next
    case (Inr p)
    obtain x u where "p = (x, u)" by (cases p)
    with Inr assms(2) [OF s, of x u] show ?thesis by simp
  qed
qed

lemma lockstepD_Inl: "lockstep S m \<Longrightarrow> S t1 t2 \<Longrightarrow> m t1 = Inl e \<Longrightarrow> m t2 = Inl e"
  unfolding lockstep_def by (drule spec [of _ t1], drule spec [of _ t2]) simp

lemma lockstepD_Inr:
  "lockstep S m \<Longrightarrow> S t1 t2 \<Longrightarrow> m t1 = Inr (x, u) \<Longrightarrow> \<exists>n. u = t1 + n \<and> m t2 = Inr (x, t2 + n)"
  unfolding lockstep_def by (drule spec [of _ t1], drule spec [of _ t2]) simp

lemma lockstep_ret: "lockstep S (ret x)"
  by (rule lockstepI) (simp_all add: ret_def)

lemma lockstep_throw: "lockstep S (\<lambda>t. Inl e)"
  by (rule lockstepI) simp_all

lemma lockstep_ask:
  assumes "\<And>t1 t2. S t1 t2 \<Longrightarrow> q t1 = q t2"
  shows "lockstep S (ask q)"
proof (rule lockstepI)
  fix t1 t2 x u assume s: "S t1 t2" and r: "ask q t1 = Inr (x, u)"
  have "u = t1 + 1 \<and> ask q t2 = Inr (x, t2 + 1)"
    using r assms [OF s] by (auto simp: ask_def)
  then show "\<exists>n. u = t1 + n \<and> ask q t2 = Inr (x, t2 + n)" by blast
qed (simp add: ask_def)

lemma lockstep_askE:
  assumes "\<And>t1 t2. S t1 t2 \<Longrightarrow> q t1 = q t2"
  shows "lockstep S (askE q)"
proof (rule lockstepI)
  fix t1 t2 e assume s: "S t1 t2" and r: "askE q t1 = Inl e"
  show "askE q t2 = Inl e"
    using r assms [OF s] by (simp add: askE_def split: sum.splits)
next
  fix t1 t2 x u assume s: "S t1 t2" and r: "askE q t1 = Inr (x, u)"
  have "u = t1 + 1 \<and> askE q t2 = Inr (x, t2 + 1)"
    using r assms [OF s] by (auto simp: askE_def split: sum.splits)
  then show "\<exists>n. u = t1 + n \<and> askE q t2 = Inr (x, t2 + n)" by blast
qed

lemma lockstep_bind:
  assumes sc: "shift_closed S" and m: "lockstep S m" and f: "\<And>x. lockstep S (f x)"
  shows "lockstep S (bindIO m f)"
proof (rule lockstepI)
  fix t1 t2 e assume s: "S t1 t2" and r: "bindIO m f t1 = Inl e"
  show "bindIO m f t2 = Inl e"
  proof (cases "m t1")
    case (Inl e')
    with r have "e' = e" by (simp add: bindIO_def)
    with lockstepD_Inl [OF m s Inl] show ?thesis by (simp add: bindIO_def)
  next
    case (Inr p)
    obtain x u where p: "p = (x, u)" by (cases p)
    from lockstepD_Inr [OF m s Inr [unfolded p]] obtain n
      where n: "u = t1 + n" "m t2 = Inr (x, t2 + n)" by blast
    from sc s have s': "S (t1 + n) (t2 + n)" by (simp add: shift_closed_def)
    from r Inr p n have "f x (t1 + n) = Inl e" by (simp add: bindIO_def)
    from lockstepD_Inl [OF f s' this] n show ?thesis by (simp add: bindIO_def)
  qed
next
  fix t1 t2 y v assume s: "S t1 t2" and r: "bindIO m f t1 = Inr (y, v)"
  show "\<exists>n. v = t1 + n \<and> bindIO m f t2 = Inr (y, t2 + n)"
  proof (cases "m t1")
    case (Inl e')
    with r show ?thesis by (simp add: bindIO_def)
  next
    case (Inr p)
    obtain x u where p: "p = (x, u)" by (cases p)
    from lockstepD_Inr [OF m s Inr [unfolded p]] obtain n
      where n: "u = t1 + n" "m t2 = Inr (x, t2 + n)" by blast
    from sc s have s': "S (t1 + n) (t2 + n)" by (simp add: shift_closed_def)
    from r Inr p n have "f x (t1 + n) = Inr (y, v)" by (simp add: bindIO_def)
    from lockstepD_Inr [OF f s' this] obtain k
      where k: "v = t1 + n + k" "f x (t2 + n) = Inr (y, t2 + n + k)" by blast
    have "v = t1 + (n + k) \<and> bindIO m f t2 = Inr (y, t2 + (n + k))"
      using k n by (simp add: bindIO_def add.assoc)
    then show ?thesis by blast
  qed
qed

lemma lockstep_run: "lockstep S m \<Longrightarrow> S t1 t2 \<Longrightarrow> run m t1 = run m t2"
proof (cases "m t1")
  case (Inl e)
  assume "lockstep S m" "S t1 t2"
  from lockstepD_Inl [OF this Inl] Inl show ?thesis by (simp add: run_def)
next
  case (Inr p)
  assume a: "lockstep S m" "S t1 t2"
  obtain x u where p: "p = (x, u)" by (cases p)
  from lockstepD_Inr [OF a Inr [unfolded p]] Inr p show ?thesis by (auto simp: run_def)
qed

lemma lockstep_prod: "(\<And>a b. lockstep S (f a b)) \<Longrightarrow> lockstep S (case p of (a, b) \<Rightarrow> f a b)"
  by (cases p) simp

lemma lockstep_if: "lockstep S a \<Longrightarrow> lockstep S b \<Longrightarrow> lockstep S (if c then a else b)"
  by simp

lemma same_canvas_shift: "shift_closed (same_canvas_answers h)"
  unfolding shift_closed_def same_canvas_answers_def
  by (simp add: add.assoc)

lemma same_canvas_now:
  assumes "same_canvas_answers h t1 t2"
  shows "getContext2d h t1 = getContext2d h t2" "isPointInPath h t1 = isPointInPath h t2"
    "toDataURL h t1 = toDataURL h t2" "getImageData h t1 = getImageData h t2"
  using assms [unfolded same_canvas_answers_def, THEN spec, of 0] by simp_all

lemmas ls_canvas = lockstep_bind [OF same_canvas_shift] lockstep_ret lockstep_throw lockstep_prod lockstep_if

lemma ls_getContext: "lockstep (same_canvas_answers h) (ask (\<lambda>t. getContext2d h t c))"
  by (rule lockstep_ask) (simp add: same_canvas_now)

lemma ls_isPointInPath: "lockstep (same_canvas_answers h) (ask (\<lambda>t. isPointInPath h t c x y r))"
  by (rule lockstep_ask) (simp add: same_canvas_now)

lemma ls_toDataURL: "lockstep (same_canvas_answers h) (askE (\<lambda>t. toDataURL h t c))"
  by (rule lockstep_askE) (simp add: same_canvas_now)

lemma ls_getImageData: "lockstep (same_canvas_answers h) (askE (\<lambda>t. getImageData h t c a b w v))"
  by (rule lockstep_askE) (simp add: same_canvas_now)

lemma ls_makeCanvasContext: "lockstep (same_canvas_answers h) (makeCanvasContext h)"
  unfolding makeCanvasContext_def Let_def by (intro ls_canvas ls_getContext)

lemma ls_doesSupportWinding: "lockstep (same_canvas_answers h) (doesSupportWinding h c)"
  unfolding doesSupportWinding_def Let_def by (intro ls_canvas ls_isPointInPath)

lemma ls_renderImages: "lockstep (same_canvas_answers h) (renderImages h c)"
  unfolding renderImages_def Let_def canvasToString_def by (intro ls_canvas ls_toDataURL)

lemma ls_getUnstable: "lockstep (same_canvas_answers h) (getUnstableCanvasFingerprint h s)"
  unfolding getUnstableCanvasFingerprint_def
  by (intro ls_canvas ls_makeCanvasContext ls_doesSupportWinding ls_renderImages)

lemma lockstep_sum:
  "(\<And>e. lockstep S (f e)) \<Longrightarrow> (\<And>x. lockstep S (g x)) \<Longrightarrow> lockstep S (case s of Inl e \<Rightarrow> f e | Inr x \<Rightarrow> g x)"
  by (cases s) simp_all

lemma ls_getDenoised: "lockstep (same_canvas_answers h) (getDenoisedCanvasData h c f)"
  unfolding getDenoisedCanvasData_def Let_def
  by (intro ls_canvas lockstep_sum ls_getContext ls_toDataURL ls_getImageData)

lemma ls_getNoiseResistant: "lockstep (same_canvas_answers h) (getNoiseResistantCanvasFingerprint h)"
  unfolding getNoiseResistantCanvasFingerprint_def
  by (intro ls_canvas ls_makeCanvasContext ls_doesSupportWinding ls_getDenoised)

lemma ls_getCanvasFingerprint: "lockstep (same_canvas_answers h) (getCanvasFingerprint h)"
  unfolding getCanvasFingerprint_def
  by (intro ls_canvas ls_getUnstable ls_getNoiseResistant)

lemma same_mq_shift: "shift_closed (same_mq_answers h)"
  unfolding shift_closed_def same_mq_answers_def
  by (simp add: add.assoc)

lemma same_mq_now:
  assumes "same_mq_answers h t1 t2"
  shows "matchMedia h t1 = matchMedia h t2" "devicePixelRatio h t1 = devicePixelRatio h t2"
  using assms [unfolded same_mq_answers_def, THEN spec, of 0] by simp_all

lemma same_mq_Suc: "same_mq_answers h t1 t2 \<Longrightarrow> same_mq_answers h (Suc t1) (Suc t2)"
  using same_mq_shift [of h, unfolded shift_closed_def, THEN spec, THEN spec, THEN spec, of t1 t2 1]
  by simp

text \<open>The two searches ask the host once in every iteration, whatever it answers.\<close>

lemma lowerBound_lockstep:
  "same_mq_answers h t1 t2 \<Longrightarrow>
   \<exists>x n. lowerBound h d low high t1 = (x, t1 + n) \<and> lowerBound h d low high t2 = (x, t2 + n)"
proof (induction "high - low" arbitrary: low high t1 t2 rule: less_induct)
  case less
  show ?case
  proof (cases "high - low > 10")
    case False
    then have "lowerBound h d low high t1 = (low, t1 + 0) \<and> lowerBound h d low high t2 = (low, t2 + 0)"
      by (simp add: lowerBound_stop)
    then show ?thesis by blast
  next
    case True
    let ?mid = "(low + high) div 2"
    have m: "low < ?mid" "?mid < high" using True by auto
    have s: "same_mq_answers h (Suc t1) (Suc t2)" by (rule same_mq_Suc [OF less.prems])
    have e: "matchMedia h t1 (MinDim d ?mid) = matchMedia h t2 (MinDim d ?mid)"
      by (simp add: same_mq_now [OF less.prems])
    have up: "\<exists>x n. lowerBound h d ?mid high (Suc t1) = (x, Suc t1 + n) \<and> lowerBound h d ?mid high (Suc t2) = (x, Suc t2 + n)"
      using m by (intro less.hyps [OF _ s]) simp
    have dn: "\<exists>x n. lowerBound h d low ?mid (Suc t1) = (x, Suc t1 + n) \<and> lowerBound h d low ?mid (Suc t2) = (x, Suc t2 + n)"
      using m by (intro less.hyps [OF _ s]) simp
    have "\<exists>x n. lowerBound h d low high t1 = (x, t1 + Suc n) \<and> lowerBound h d low high t2 = (x, t2 + Suc n)"
      using up dn e by (simp add: lowerBound_step [OF True])
    then have "\<exists>x n. lowerBound h d low high t1 = (x, t1 + n) \<and> lowerBound h d low high t2 = (x, t2 + n)"
      by blast
    then show ?thesis by blast
  qed
qed

lemma upperBound_lockstep:
  "same_mq_answers h t1 t2 \<Longrightarrow>
   \<exists>x n. upperBound h d low high t1 = (x, t1 + n) \<and> upperBound h d low high t2 = (x, t2 + n)"
proof (induction "high - low" arbitrary: low high t1 t2 rule: less_induct)
  case less
  show ?case
  proof (cases "high - low > 10")
    case False
    then have "upperBound h d low high t1 = (high, t1 + 0) \<and> upperBound h d low high t2 = (high, t2 + 0)"
      by (simp add: upperBound_stop)
    then show ?thesis by blast
  next
    case True
    let ?mid = "(low + high) div 2"
    have m: "low < ?mid" "?mid < high" using True by auto
    have s: "same_mq_answers h (Suc t1) (Suc t2)" by (rule same_mq_Suc [OF less.prems])
    have e: "matchMedia h t1 (MaxDim d ?mid) = matchMedia h t2 (MaxDim d ?mid)"
      by (simp add: same_mq_now [OF less.prems])
    have up: "\<exists>x n. upperBound h d ?mid high (Suc t1) = (x, Suc t1 + n) \<and> upperBound h d ?mid high (Suc t2) = (x, Suc t2 + n)"
      using m by (intro less.hyps [OF _ s]) simp
    have dn: "\<exists>x n. upperBound h d low ?mid (Suc t1) = (x, Suc t1 + n) \<and> upperBound h d low ?mid (Suc t2) = (x, Suc t2 + n)"
      using m by (intro less.hyps [OF _ s]) simp
    have "\<exists>x n. upperBound h d low high t1 = (x, t1 + Suc n) \<and> upperBound h d low high t2 = (x, t2 + Suc n)"
      using up dn e by (simp add: upperBound_step [OF True])
    then have "\<exists>x n. upperBound h d low high t1 = (x, t1 + n) \<and> upperBound h d low high t2 = (x, t2 + n)"
      by blast
    then show ?thesis by blast
  qed
qed

lemma ls_detectDimensionRange: "lockstep (same_mq_answers h) (liftT (detectDimensionRange h d))"
proof (rule lockstepI)
  fix t1 t2 x u
  assume s: "same_mq_answers h t1 t2" and r: "liftT (detectDimensionRange h d) t1 = Inr (x, u)"
  from lowerBound_lockstep [OF s, of d 0 8192] obtain lo n where
    l: "lowerBound h d 0 8192 t1 = (lo, t1 + n)" "lowerBound h d 0 8192 t2 = (lo, t2 + n)" by blast
  have s': "same_mq_answers h (t1 + n) (t2 + n)"
    using same_mq_shift [of h] s by (simp add: shift_closed_def)
  from upperBound_lockstep [OF s', of d 0 8192] obtain hi k where
    u: "upperBound h d 0 8192 (t1 + n) = (hi, t1 + n + k)"
       "upperBound h d 0 8192 (t2 + n) = (hi, t2 + n + k)" by blast
  have "u = t1 + (n + k) \<and> liftT (detectDimensionRange h d) t2 = Inr (x, t2 + (n + k))"
    using r l u by (auto simp: liftT_def detectDimensionRange_def add.assoc)
  then show "\<exists>n. u = t1 + n \<and> liftT (detectDimensionRange h d) t2 = Inr (x, t2 + n)" by blast
qed (simp add: liftT_def)

lemmas ls_mq = lockstep_bind [OF same_mq_shift] lockstep_ret lockstep_if

lemma ls_matchMedia: "lockstep (same_mq_answers h) (ask (\<lambda>t. matchMedia h t q))"
  by (rule lockstep_ask) (simp add: same_mq_now)

lemma ls_devicePixelRatio: "lockstep (same_mq_answers h) (ask (\<lambda>t. devicePixelRatio h t))"
  by (rule lockstep_ask) (simp add: same_mq_now)

lemma ls_scanDown: "lockstep (same_mq_answers h) (scanDown h q xs i)"
  by (induction i) (simp add: lockstep_ret, simp, intro ls_mq ls_matchMedia, assumption)

lemma ls_firstFeature: "lockstep (same_mq_answers h) (firstFeature h name vs)"
  by (induction vs) (simp add: lockstep_ret, simp, intro ls_mq ls_matchMedia, assumption)

lemma lockstep_option:
  "lockstep S a \<Longrightarrow> (\<And>x. lockstep S (f x)) \<Longrightarrow> lockstep S (case v of None \<Rightarrow> a | Some x \<Rightarrow> f x)"
  by (cases v) simp_all

lemma ls_detectPixelRatio: "lockstep (same_mq_answers h) (detectPixelRatio h)"
  unfolding detectPixelRatio_def Let_def
  by (intro ls_mq lockstep_option ls_scanDown ls_devicePixelRatio)

lemma ls_detectColorBits: "lockstep (same_mq_answers h) (detectColorBits h)"
  unfolding detectColorBits_def Let_def
  by (intro ls_mq ls_scanDown)

lemma ls_getScreenMediaQueries: "lockstep (same_mq_answers h) (getScreenMediaQueries h)"
  unfolding getScreenMediaQueries_def detectOrientation_def detectDisplayMode_def
    detectPointer_def detectHover_def detectAnyPointer_def detectAnyHover_def
    detectOverflowBlock_def detectOverflowInline_def detectUpdate_def detectScripting_def
  by (intro ls_mq ls_detectDimensionRange ls_detectPixelRatio ls_detectColorBits ls_firstFeature)

section \<open>Properties of the canvas source\<close>

text \<open>
  The copy of one pixel writes the four bytes of that pixel and no other; a row of copies
  writes the pixels of its row, and the rows before it are left as they are.
\<close>

lemma length_copyPixel [simp]: "length (copyPixel d sw w y x acc) = length acc"
  by (simp add: copyPixel_def Let_def)

lemma copyPixel_other:
  "i < (y * w + x) * 4 \<or> (y * w + x) * 4 + 4 \<le> i \<Longrightarrow> copyPixel d sw w y x acc ! i = acc ! i"
  by (auto simp add: copyPixel_def Let_def)

lemma update4_nth:
  fixes f :: "nat \<Rightarrow> 'a"
  assumes "p + 3 < length acc" and "c < 4"
  shows "acc[p := f 0, p + 1 := f 1, p + 2 := f 2, p + 3 := f 3] ! (p + c) = f c"
proof -
  from assms(2) consider "c = 0" | "c = 1" | "c = 2" | "c = 3" by linarith
  then show ?thesis using assms(1) by cases simp_all
qed

lemma copyPixel_updates:
  "copyPixel d sw w y x acc =
     acc[(y * w + x) * 4 := rd d (((y * 3 + 1) * sw + (x * 3 + 1)) * 4 + 0),
         (y * w + x) * 4 + 1 := rd d (((y * 3 + 1) * sw + (x * 3 + 1)) * 4 + 1),
         (y * w + x) * 4 + 2 := rd d (((y * 3 + 1) * sw + (x * 3 + 1)) * 4 + 2),
         (y * w + x) * 4 + 3 := rd d (((y * 3 + 1) * sw + (x * 3 + 1)) * 4 + 3)]"
proof -
  have e: "(3::nat) div 2 = 1" by simp
  show ?thesis
    unfolding copyPixel_def Let_def DENOISE_SCALE_def e by (simp only: add_0_right)
qed

lemma copyPixel_here:
  "(y * w + x) * 4 + 3 < length acc \<Longrightarrow> c < 4 \<Longrightarrow>
   copyPixel d sw w y x acc ! ((y * w + x) * 4 + c)
     = rd d (((y * 3 + 1) * sw + (x * 3 + 1)) * 4 + c)"
  unfolding copyPixel_updates
  by (rule update4_nth [where f = "\<lambda>c. rd d (((y * 3 + 1) * sw + (x * 3 + 1)) * 4 + c)"])

lemma copyRow_Suc: "copyRow d sw w y (Suc k) acc = copyPixel d sw w y k (copyRow d sw w y k acc)"
  by (simp add: copyRow_def)

lemma length_copyRow [simp]: "length (copyRow d sw w y k acc) = length acc"
  by (induction k) (simp_all add: copyRow_Suc, simp add: copyRow_def)

lemma copyRow_other:
  "i < y * w * 4 \<or> (y * w + k) * 4 \<le> i \<Longrightarrow> copyRow d sw w y k acc ! i = acc ! i"
proof (induction k)
  case 0
  then show ?case by (simp add: copyRow_def)
next
  case (Suc k)
  then have a: "i < (y * w + k) * 4 \<or> (y * w + k) * 4 + 4 \<le> i" by auto
  from Suc have b: "i < y * w * 4 \<or> (y * w + k) * 4 \<le> i" by auto
  show ?case by (simp add: copyRow_Suc copyPixel_other [OF a] Suc.IH [OF b])
qed

lemma copyRow_here:
  "(y * w + k) * 4 \<le> length acc \<Longrightarrow> x < k \<Longrightarrow> c < 4 \<Longrightarrow>
   copyRow d sw w y k acc ! ((y * w + x) * 4 + c)
     = rd d (((y * 3 + 1) * sw + (x * 3 + 1)) * 4 + c)"
proof (induction k)
  case 0
  then show ?case by simp
next
  case (Suc k)
  show ?case
  proof (cases "x = k")
    case True
    have "(y * w + k) * 4 + 3 < length (copyRow d sw w y k acc)" using Suc.prems(1) by simp
    from copyPixel_here [OF this Suc.prems(3)] True show ?thesis by (simp add: copyRow_Suc)
  next
    case False
    with Suc.prems have x: "x < k" by simp
    have l: "(y * w + k) * 4 \<le> length acc" using Suc.prems(1) by simp
    have "(y * w + x) * 4 + c < (y * w + k) * 4" using x Suc.prems(3) by simp
    then have "copyPixel d sw w y k (copyRow d sw w y k acc) ! ((y * w + x) * 4 + c)
         = copyRow d sw w y k acc ! ((y * w + x) * 4 + c)"
      by (intro copyPixel_other) simp
    with Suc.IH [OF l x Suc.prems(3)] show ?thesis by (simp add: copyRow_Suc)
  qed
qed

lemma copyRows_Suc: "copyRows d sw w (Suc m) acc = copyRow d sw w m w (copyRows d sw w m acc)"
  by (simp add: copyRows_def)

lemma length_copyRows [simp]: "length (copyRows d sw w m acc) = length acc"
  by (induction m) (simp_all add: copyRows_Suc, simp add: copyRows_def)

lemma copyRows_here:
  "m * w * 4 \<le> length acc \<Longrightarrow> y < m \<Longrightarrow> x < w \<Longrightarrow> c < 4 \<Longrightarrow>
   copyRows d sw w m acc ! ((y * w + x) * 4 + c)
     = rd d (((y * 3 + 1) * sw + (x * 3 + 1)) * 4 + c)"
proof (induction m)
  case 0
  then show ?case by simp
next
  case (Suc m)
  have l: "m * w * 4 \<le> length acc" using Suc.prems(1) by simp
  show ?case
  proof (cases "y = m")
    case True
    have "(m * w + w) * 4 \<le> length (copyRows d sw w m acc)" using Suc.prems(1) by (simp add: algebra_simps)
    from copyRow_here [OF this Suc.prems(3,4)] True show ?thesis by (simp add: copyRows_Suc)
  next
    case False
    with Suc.prems have y: "y < m" by simp
    then have "Suc y \<le> m" by simp
    then have "Suc y * w \<le> m * w" by (rule mult_le_mono1)
    then have "(y * w + x) * 4 + c < m * w * 4" using Suc.prems(3,4) by simp
    then have "copyRow d sw w m w (copyRows d sw w m acc) ! ((y * w + x) * 4 + c)
         = copyRows d sw w m acc ! ((y * w + x) * 4 + c)"
      by (intro copyRow_other) simp
    with Suc.IH [OF l y Suc.prems(3,4)] show ?thesis by (simp add: copyRows_Suc)
  qed
qed

lemma extractCenters_copyRows:
  "extractCenters d sw w v = copyRows d sw w v (replicate (w * v * 4) 0)"
  by (simp add: extractCenters_def copyRows_def copyRow_def)

lemma length_extractCenters: "length (extractCenters d sw w v) = w * v * 4"
  by (simp add: extractCenters_copyRows)

lemma extractCenters_nth:
  assumes "x < w" and "y < v" and "c < 4"
  shows "extractCenters d sw w v ! ((y * w + x) * 4 + c)
           = rd d (((y * 3 + 1) * sw + (x * 3 + 1)) * 4 + c)"
proof -
  have "v * w * 4 \<le> length (replicate (w * v * 4) (0 :: u8))" by (simp add: mult.commute)
  from copyRows_here [OF this assms(2,1,3)] show ?thesis
    unfolding extractCenters_copyRows .
qed

lemma canvas_sel [simp]:
  "width (setWidth w c) = w" "height (setWidth w c) = height c"
  "width (setHeight v c) = width c" "height (setHeight v c) = v"
  "width (draw cmds c) = width c" "height (draw cmds c) = height c"
  by (simp_all add: setWidth_def setHeight_def draw_def)

lemma typedArraySet_same: "length s = length t \<Longrightarrow> typedArraySet t s = Inr s"
  by (simp add: typedArraySet_def)

lemma set_denoised:
  "typedArraySet (createImageData w v) (extractCenters d sw w v) = Inr (extractCenters d sw w v)"
  by (rule typedArraySet_same) (simp add: length_extractCenters createImageData_def)

lemma fallback_returned:
  "returned (bindIO (askE (\<lambda>t. toDataURL h t c)) (\<lambda>url. ret (url, c)) t) = toDataURL h t c"
  by (simp add: returned_def bindIO_def askE_def ret_def split: sum.splits)

text \<open>
  The denoise procedure, call by call. The array that is set into the new image data has
  the length of that image, so \<open>set\<close> does not throw.
\<close>

lemma getDenoisedCanvasData_steps:
  "getDenoisedCanvasData h canvas renderFn t =
     (let c = renderFn canvas in
      if \<not> getContext2d h t (scaledCanvasFor c)
      then bindIO (askE (\<lambda>t. toDataURL h t c)) (\<lambda>url. ret (url, c)) (Suc t)
      else case getImageData h (Suc t) (scaledDrawn c) 0 0 (width c * 3) (height c * 3) of
             Inl e \<Rightarrow> Inl e
           | Inr d \<Rightarrow>
               if \<not> getContext2d h (Suc (Suc t)) (outputCanvasFor c)
               then bindIO (askE (\<lambda>t. toDataURL h t c)) (\<lambda>url. ret (url, c)) (Suc (Suc (Suc t)))
               else bindIO (askE (\<lambda>t. toDataURL h t
                              (outputDrawn c (extractCenters d (width c * 3) (width c) (height c)))))
                      (\<lambda>url. ret (url, c)) (Suc (Suc (Suc t))))"
  by (simp add: getDenoisedCanvasData_def Let_def bindIO_def ask_def askE_def DENOISE_SCALE_def
      scaledCanvasFor_def scaledDrawn_def outputCanvasFor_def outputDrawn_def set_denoised
      split: sum.splits)

lemma pixel_extractCenters:
  assumes "x < w" and "y < v"
  shows "pixel (extractCenters d sw w v) w x y = pixel d sw (3 * x + 1) (3 * y + 1)"
proof -
  have b: "(y * w + x) * 4 + c < length (extractCenters d sw w v)" if "c < 4" for c
  proof -
    have "Suc y * w \<le> v * w" using assms(2) by (intro mult_le_mono1) simp
    then show ?thesis using assms(1) that by (simp add: length_extractCenters mult.commute)
  qed
  have n: "rd (extractCenters d sw w v) ((y * w + x) * 4 + c)
             = rd d (((y * 3 + 1) * sw + (x * 3 + 1)) * 4 + c)" if "c < 4" for c
    using b [OF that] extractCenters_nth [OF assms that, of d sw] by (simp add: rd_def)
  from n [of 0] n [of 1] n [of 2] n [of 3] show ?thesis
    by (simp add: pixel_def mult.commute)
qed

lemma scene_sizes [simp]:
  "width (renderTextImage c) = 240" "height (renderTextImage c) = 60"
  "width (renderGeometryImage c) = 122" "height (renderGeometryImage c) = 110"
  by (simp_all add: renderTextImage_def renderGeometryImage_def)

lemma scratch_sizes [simp]:
  "width (scaledCanvasFor c) = width c * 3" "height (scaledCanvasFor c) = height c * 3"
  "width (scaledDrawn c) = width c * 3" "height (scaledDrawn c) = height c * 3"
  "width (outputCanvasFor c) = width c" "height (outputCanvasFor c) = height c"
  "width (outputDrawn c d) = width c" "height (outputDrawn c d) = height c"
  by (simp_all add: scaledCanvasFor_def scaledDrawn_def outputCanvasFor_def outputDrawn_def)

lemma start_sizes [simp]:
  "width initialCanvas = 1" "height initialCanvas = 1"
  "width windingCanvas = 1" "height windingCanvas = 1"
  "width geometrySource = 122" "height geometrySource = 110"
  by (simp_all add: initialCanvas_def windingCanvas_def geometrySource_def)

text \<open>
  C9. In the denoise procedure, when the host gives no 2D context for the scaled scratch
  canvas, \<open>getDenoisedCanvasData\<close> returns what \<open>toDataURL\<close> of the source canvas returns
  (or throws what it throws); and when the scaled context and the pixel readback succeed
  but the host gives no 2D context for the output canvas, it returns the same direct
  readback of the source canvas.
\<close>

theorem getDenoisedCanvasData_fallback:
  "(\<not> getContext2d h t (scaledCanvasFor (renderFn canvas)) \<longrightarrow>
      returned (getDenoisedCanvasData h canvas renderFn t) = toDataURL h (Suc t) (renderFn canvas))
 \<and> (getContext2d h t (scaledCanvasFor (renderFn canvas))
      \<and> getImageData h (Suc t) (scaledDrawn (renderFn canvas)) 0 0
            (width (renderFn canvas) * 3) (height (renderFn canvas) * 3) = Inr d
      \<and> \<not> getContext2d h (Suc (Suc t)) (outputCanvasFor (renderFn canvas)) \<longrightarrow>
      returned (getDenoisedCanvasData h canvas renderFn t)
        = toDataURL h (Suc (Suc (Suc t))) (renderFn canvas))"
  by (simp add: getDenoisedCanvasData_steps Let_def fallback_returned)

theorem getDenoisedCanvasData_fallback_witness:
  "\<not> getContext2d lowmem 0 (scaledCanvasFor (renderGeometryImage windingCanvas))
 \<and> returned (getDenoisedCanvasData lowmem windingCanvas renderGeometryImage 0) = Inr (png ''Z2VvbQ=='')
 \<and> getContext2d no_output 0 (scaledCanvasFor (renderTextImage windingCanvas))
 \<and> \<not> getContext2d no_output 2 (outputCanvasFor (renderTextImage windingCanvas))
 \<and> returned (getDenoisedCanvasData no_output windingCanvas renderTextImage 0) = Inr (png ''dGV4dA=='')"
proof -
  have a: "\<not> getContext2d lowmem 0 (scaledCanvasFor (renderGeometryImage windingCanvas))"
    by (simp add: lowmem_def safari17_def chrome_def scaledCanvasFor_def)
  have b: "toDataURL lowmem (Suc 0) (renderGeometryImage windingCanvas) = Inr (png ''Z2VvbQ=='')"
    by (simp add: lowmem_def safari17_def chrome_def)
  have c: "getContext2d no_output 0 (scaledCanvasFor (renderTextImage windingCanvas))"
    "\<not> getContext2d no_output (Suc (Suc 0)) (outputCanvasFor (renderTextImage windingCanvas))"
    "getImageData no_output (Suc 0) (scaledDrawn (renderTextImage windingCanvas)) 0 0
       (width (renderTextImage windingCanvas) * 3) (height (renderTextImage windingCanvas) * 3)
       = Inr (replicate (720 * 180 * 4) 9)"
    "toDataURL no_output (Suc (Suc (Suc 0))) (renderTextImage windingCanvas) = Inr (png ''dGV4dA=='')"
    by (simp_all add: no_output_def safari17_def chrome_def)
  from getDenoisedCanvasData_fallback [of lowmem 0 renderGeometryImage windingCanvas] a b
  have 1: "returned (getDenoisedCanvasData lowmem windingCanvas renderGeometryImage 0)
             = Inr (png ''Z2VvbQ=='')"
    by simp
  from getDenoisedCanvasData_fallback
         [of no_output 0 renderTextImage windingCanvas "replicate (720 * 180 * 4) 9"] c
  have 2: "returned (getDenoisedCanvasData no_output windingCanvas renderTextImage 0)
             = Inr (png ''dGV4dA=='')"
    by simp
  from a c(1,2) 1 2 show ?thesis by (simp add: numeral_2_eq_2)
qed

text \<open>
  C5. When both scratch contexts are obtained and the pixel readback of the scaled canvas
  returns the bytes \<open>d\<close>, the denoise procedure encodes an output canvas of the source's size
  that holds the image \<open>extractCenters d\<close>; and in that image, for a source of width \<open>w\<close>
  and height \<open>v\<close>, the RGBA quadruple of every pixel \<open>(x, y)\<close> with \<open>x < w\<close> and \<open>y < v\<close> is
  the quadruple that the readback of width \<open>3 w\<close> holds at \<open>(3 x + 1, 3 y + 1)\<close>, the centre
  of the pixel's block. (\<open>pixel\<close> reads as the source does: a byte past the end of the
  readback is 0.)
\<close>

theorem denoise_center_pixels:
  "(getContext2d h t (scaledCanvasFor (renderFn canvas))
      \<and> getImageData h (Suc t) (scaledDrawn (renderFn canvas)) 0 0
            (width (renderFn canvas) * 3) (height (renderFn canvas) * 3) = Inr d
      \<and> getContext2d h (Suc (Suc t)) (outputCanvasFor (renderFn canvas)) \<longrightarrow>
      returned (getDenoisedCanvasData h canvas renderFn t)
        = toDataURL h (Suc (Suc (Suc t)))
            (outputDrawn (renderFn canvas)
               (extractCenters d (width (renderFn canvas) * 3)
                  (width (renderFn canvas)) (height (renderFn canvas)))))
 \<and> (x < w \<and> y < v \<longrightarrow>
      pixel (extractCenters d (w * 3) w v) w x y = pixel d (w * 3) (3 * x + 1) (3 * y + 1))"
  by (simp add: getDenoisedCanvasData_steps Let_def pixel_extractCenters returned_def bindIO_def
      askE_def ret_def split: sum.splits)

theorem denoise_center_pixels_witness:
  "getContext2d counting 0 (scaledCanvasFor (tiny_scene initialCanvas))
 \<and> getImageData counting 1 (scaledDrawn (tiny_scene initialCanvas)) 0 0 6 3 = Inr (map of_nat [0..<72])
 \<and> getContext2d counting 2 (outputCanvasFor (tiny_scene initialCanvas))
 \<and> returned (getDenoisedCanvasData counting initialCanvas tiny_scene 0) = Inr (png ''Z2VvbQ=='')
 \<and> pixel (extractCenters (map of_nat [0..<72]) 6 2 1) 2 1 0 = (40, 41, 42, 43)"
proof -
  have s: "width (tiny_scene initialCanvas) = 2" "height (tiny_scene initialCanvas) = 1"
    by (simp_all add: tiny_scene_def)
  have a: "getContext2d counting 0 (scaledCanvasFor (tiny_scene initialCanvas))"
    "getContext2d counting (Suc (Suc 0)) (outputCanvasFor (tiny_scene initialCanvas))"
    "getImageData counting (Suc 0) (scaledDrawn (tiny_scene initialCanvas)) 0 0
       (width (tiny_scene initialCanvas) * 3) (height (tiny_scene initialCanvas) * 3)
       = Inr (map of_nat [0..<72])"
    by (simp_all add: counting_def safari17_def chrome_def s)
  have u: "toDataURL counting (Suc (Suc (Suc 0))) c = Inr (png ''Z2VvbQ=='')" if "width c = 2" for c
    using that by (simp add: counting_def safari17_def chrome_def)
  have p: "pixel (map of_nat [0..<72]) 6 4 (Suc 0) = (40, 41, 42, 43)"
    by (simp add: pixel_def rd_def)
  from denoise_center_pixels
         [where h = counting and t = 0 and renderFn = tiny_scene and canvas = initialCanvas
            and d = "map of_nat [0..<72]" and x = 1 and w = 2 and y = 0 and v = 1] a
  have 1: "returned (getDenoisedCanvasData counting initialCanvas tiny_scene 0) = Inr (png ''Z2VvbQ=='')
     \<and> pixel (extractCenters (map of_nat [0..<72]) 6 2 (Suc 0)) 2 (Suc 0) 0
           = pixel (map of_nat [0..<72]) 6 4 (Suc 0)"
    by (simp add: u s)
  from a 1 p show ?thesis by (simp add: s numeral_2_eq_2)
qed

lemma makeCanvasContext_at:
  "makeCanvasContext h t = Inr ((initialCanvas, getContext2d h t initialCanvas), Suc t)"
  by (simp add: makeCanvasContext_def initialCanvas_def Let_def bindIO_def ask_def ret_def)

lemma doesSupportWinding_at:
  "doesSupportWinding h initialCanvas t
     = Inr ((\<not> isPointInPath h t windingCanvas 5 5 ''evenodd'', windingCanvas), Suc t)"
  by (simp add: doesSupportWinding_def windingCanvas_def Let_def bindIO_def ask_def ret_def)

lemma unsupported_result:
  "\<not> (getContext2d h t initialCanvas \<and> hasToDataURL h) \<Longrightarrow>
   run (getCanvasFingerprint h) t = Inr unsupported"
  by (auto simp add: getCanvasFingerprint_def getNoiseResistantCanvasFingerprint_def
      getUnstableCanvasFingerprint_def bindIO_def makeCanvasContext_at isSupported_def run_def
      ret_def unsupported_def)

lemma readback_throw_propagates:
  assumes "doesBrowserPerformAntifingerprinting h"
    and "getContext2d h t initialCanvas" and "hasToDataURL h"
    and "getContext2d h (t + 2) (scaledCanvasFor geometrySource)"
    and "getImageData h (t + 3) (scaledDrawn geometrySource) 0 0
           (width geometrySource * 3) (height geometrySource * 3) = Inl e"
  shows "run (getCanvasFingerprint h) t = Inl e"
  using assms
  by (simp add: getCanvasFingerprint_def getNoiseResistantCanvasFingerprint_def bindIO_def
      makeCanvasContext_at isSupported_def doesSupportWinding_at getDenoisedCanvasData_steps
      Let_def run_def geometrySource_def numeral_3_eq_3 numeral_2_eq_2)

lemma renderImages_at:
  "renderImages h c t =
     (case toDataURL h t (renderTextImage c) of Inl e \<Rightarrow> Inl e | Inr e1 \<Rightarrow>
      case toDataURL h (Suc t) (renderTextImage c) of Inl e \<Rightarrow> Inl e | Inr e2 \<Rightarrow>
        if e1 \<noteq> e2 then Inr (((Unstable, Unstable), renderTextImage c), Suc (Suc t))
        else case toDataURL h (Suc (Suc t)) (renderGeometryImage (renderTextImage c)) of
               Inl e \<Rightarrow> Inl e
             | Inr g \<Rightarrow> Inr (((g, e1), renderGeometryImage (renderTextImage c)), Suc (Suc (Suc t))))"
  by (simp add: renderImages_def canvasToString_def Let_def bindIO_def askE_def ret_def
      split: sum.splits)

lemma getUnstable_at:
  "getContext2d h t initialCanvas \<Longrightarrow> hasToDataURL h \<Longrightarrow>
   getUnstableCanvasFingerprint h False t =
     (case renderImages h windingCanvas (Suc (Suc t)) of
        Inl e \<Rightarrow> Inl e
      | Inr ((images, c), u) \<Rightarrow>
          Inr (\<lparr>winding = \<not> isPointInPath h (Suc t) windingCanvas 5 5 ''evenodd'',
                geometry = fst images, text_image = snd images\<rparr>, u))"
  by (simp add: getUnstableCanvasFingerprint_def bindIO_def makeCanvasContext_at isSupported_def
      doesSupportWinding_at ret_def split: sum.splits prod.splits)

lemma canvas_widths [simp]: "width textCanvas = 240" "width geometryCanvas = 122"
  by (simp_all add: textCanvas_def geometryCanvas_def renderTextImage_def renderGeometryImage_def)

text \<open>
  C4. Off the denoise path, with a 2D context and \<open>toDataURL\<close> present and images not skipped,
  the text scene is rendered once and read back twice (the third and fourth host calls).
  If the two encodings differ, \<open>renderImages\<close> ends after the second readback with the
  canvas still holding the text scene, so the geometry scene is not rendered, and the record
  has \<open>Unstable\<close> for geometry and text. If they are equal, the geometry scene is rendered
  and read back, and the record has that encoding for geometry and the first text encoding
  for text.
\<close>

theorem renderImages_unstable:
  assumes "\<not> doesBrowserPerformAntifingerprinting h"
    and "getContext2d h t initialCanvas" and "hasToDataURL h"
    and "toDataURL h (t + 2) textCanvas = Inr e1"
    and "toDataURL h (t + 3) textCanvas = Inr e2"
  shows "(e1 \<noteq> e2 \<longrightarrow>
            renderImages h windingCanvas (t + 2) = Inr (((Unstable, Unstable), textCanvas), t + 4)
          \<and> run (getCanvasFingerprint h) t =
              Inr \<lparr>winding = \<not> isPointInPath h (t + 1) windingCanvas 5 5 ''evenodd'',
                   geometry = Unstable, text_image = Unstable\<rparr>)
       \<and> (e1 = e2 \<and> toDataURL h (t + 4) geometryCanvas = Inr g \<longrightarrow>
            renderImages h windingCanvas (t + 2) = Inr (((g, e1), geometryCanvas), t + 5)
          \<and> run (getCanvasFingerprint h) t =
              Inr \<lparr>winding = \<not> isPointInPath h (t + 1) windingCanvas 5 5 ''evenodd'',
                   geometry = g, text_image = e1\<rparr>)"
proof -
  have n: "t + 2 = Suc (Suc t)" "t + 3 = Suc (Suc (Suc t))" "t + 4 = Suc (Suc (Suc (Suc t)))"
    "t + 5 = Suc (Suc (Suc (Suc (Suc t))))" "t + 1 = Suc t"
    by simp_all
  show ?thesis
    using assms unfolding n
    by (simp add: getCanvasFingerprint_def getUnstable_at renderImages_at run_def
        textCanvas_def geometryCanvas_def)
qed

theorem renderImages_unstable_witness:
  "run (getCanvasFingerprint samsung) 0 = Inr \<lparr>winding = True, geometry = Unstable, text_image = Unstable\<rparr>
 \<and> renderImages samsung windingCanvas 2 = Inr (((Unstable, Unstable), textCanvas), 4)
 \<and> run (getCanvasFingerprint chrome) 0 =
      Inr \<lparr>winding = True, geometry = png ''Z2VvbQ=='', text_image = png ''dGV4dA==''\<rparr>"
proof -
  have a: "\<not> doesBrowserPerformAntifingerprinting samsung" "\<not> doesBrowserPerformAntifingerprinting chrome"
    by (simp_all add: doesBrowserPerformAntifingerprinting_def samsung_def chrome_def)
  have s: "png ''QUFB'' \<noteq> png ''QkJC''" by (simp add: png_def)
  have hs: "getContext2d samsung 0 initialCanvas" "hasToDataURL samsung"
    "toDataURL samsung (0 + 2) textCanvas = Inr (png ''QUFB'')"
    "toDataURL samsung (0 + 3) textCanvas = Inr (png ''QkJC'')"
    "\<not> isPointInPath samsung (0 + 1) windingCanvas 5 5 ''evenodd''"
    by (simp_all add: samsung_def chrome_def)
  from renderImages_unstable [OF a(1) hs(1-4)] s hs(5)
  have 1: "renderImages samsung windingCanvas 2 = Inr (((Unstable, Unstable), textCanvas), 4)
     \<and> run (getCanvasFingerprint samsung) 0 =
          Inr \<lparr>winding = True, geometry = Unstable, text_image = Unstable\<rparr>"
    by (simp add: numeral_2_eq_2)
  have hc: "getContext2d chrome 0 initialCanvas" "hasToDataURL chrome"
    "toDataURL chrome (0 + 2) textCanvas = Inr (png ''dGV4dA=='')"
    "toDataURL chrome (0 + 3) textCanvas = Inr (png ''dGV4dA=='')"
    "toDataURL chrome (0 + 4) geometryCanvas = Inr (png ''Z2VvbQ=='')"
    "\<not> isPointInPath chrome (0 + 1) windingCanvas 5 5 ''evenodd''"
    by (simp_all add: chrome_def)
  from renderImages_unstable [OF a(2) hc(1-4), of "png ''Z2VvbQ==''"] hc(5,6)
  have 2: "run (getCanvasFingerprint chrome) 0 =
      Inr \<lparr>winding = True, geometry = png ''Z2VvbQ=='', text_image = png ''dGV4dA==''\<rparr>"
    by simp
  from 1 2 show ?thesis by simp
qed

text \<open>
  C1, as stated, fails: the canvas source has no handler for exceptions, so a pixel readback
  that throws on the denoise path leaves \<open>getCanvasFingerprint\<close> as an exception instead of
  a record with \<open>Unsupported\<close>. The host \<open>safari_blocked\<close> shows it.
\<close>

theorem getCanvasFingerprint_throws:
  "doesBrowserPerformAntifingerprinting safari_blocked
 \<and> run (getCanvasFingerprint safari_blocked) 0 = Inl (ErrorObj ''The operation is insecure.'')
 \<and> \<not> (\<exists>r. run (getCanvasFingerprint safari_blocked) 0 = Inr r)"
proof -
  have a: "doesBrowserPerformAntifingerprinting safari_blocked"
    by (simp add: doesBrowserPerformAntifingerprinting_def safari_blocked_def safari17_def chrome_def)
  have b: "getContext2d safari_blocked 0 initialCanvas" "hasToDataURL safari_blocked"
    "getContext2d safari_blocked (0 + 2) (scaledCanvasFor geometrySource)"
    "getImageData safari_blocked (0 + 3) (scaledDrawn geometrySource) 0 0
       (width geometrySource * 3) (height geometrySource * 3)
       = Inl (ErrorObj ''The operation is insecure.'')"
    by (simp_all add: safari_blocked_def safari17_def chrome_def)
  from readback_throw_propagates [OF a b] show ?thesis using a by simp
qed

text \<open>
  The canvas source call by call: what each function returns or throws, given the answers
  of the host at the ticks at which it is asked.
\<close>

lemma getDenoisedCanvasData_at:
  "getDenoisedCanvasData h canvas renderFn u =
     (if \<not> getContext2d h u (scaledCanvasFor (renderFn canvas))
      then case toDataURL h (u + 1) (renderFn canvas) of
             Inl e \<Rightarrow> Inl e
           | Inr url \<Rightarrow> Inr ((url, renderFn canvas), u + 2)
      else case getImageData h (u + 1) (scaledDrawn (renderFn canvas)) 0 0
                  (width (renderFn canvas) * 3) (height (renderFn canvas) * 3) of
             Inl e \<Rightarrow> Inl e
           | Inr d \<Rightarrow>
               case toDataURL h (u + 3)
                      (if getContext2d h (u + 2) (outputCanvasFor (renderFn canvas))
                       then outputDrawn (renderFn canvas)
                              (extractCenters d (width (renderFn canvas) * 3)
                                 (width (renderFn canvas)) (height (renderFn canvas)))
                       else renderFn canvas) of
                 Inl e \<Rightarrow> Inl e
               | Inr url \<Rightarrow> Inr ((url, renderFn canvas), u + 4))"
  by (simp add: getDenoisedCanvasData_steps Let_def bindIO_def askE_def ret_def numeral_3_eq_3
      numeral_2_eq_2 eval_nat_numeral split: sum.splits)

lemma getNoiseResistant_at:
  "getContext2d h t initialCanvas \<Longrightarrow> hasToDataURL h \<Longrightarrow>
   run (getNoiseResistantCanvasFingerprint h) t =
     (case getDenoisedCanvasData h windingCanvas renderGeometryImage (t + 2) of
        Inl e \<Rightarrow> Inl e
      | Inr ((g, c1), u) \<Rightarrow>
          (case getDenoisedCanvasData h c1 renderTextImage u of
             Inl e \<Rightarrow> Inl e
           | Inr ((tx, c2), v) \<Rightarrow>
               Inr \<lparr>winding = \<not> isPointInPath h (t + 1) windingCanvas 5 5 ''evenodd'',
                    geometry = g, text_image = tx\<rparr>))"
  by (simp add: getNoiseResistantCanvasFingerprint_def bindIO_def makeCanvasContext_at
      isSupported_def doesSupportWinding_at ret_def run_def split: sum.splits prod.splits)

lemma getUnstable_run:
  "getContext2d h t initialCanvas \<Longrightarrow> hasToDataURL h \<Longrightarrow>
   run (getUnstableCanvasFingerprint h False) t =
     (case toDataURL h (t + 2) textCanvas of Inl e \<Rightarrow> Inl e | Inr e1 \<Rightarrow>
      case toDataURL h (t + 3) textCanvas of Inl e \<Rightarrow> Inl e | Inr e2 \<Rightarrow>
        if e1 \<noteq> e2
        then Inr \<lparr>winding = \<not> isPointInPath h (t + 1) windingCanvas 5 5 ''evenodd'',
                  geometry = Unstable, text_image = Unstable\<rparr>
        else case toDataURL h (t + 4) geometryCanvas of
               Inl e \<Rightarrow> Inl e
             | Inr g \<Rightarrow> Inr \<lparr>winding = \<not> isPointInPath h (t + 1) windingCanvas 5 5 ''evenodd'',
                             geometry = g, text_image = e1\<rparr>)"
proof -
  have n: "t + 2 = Suc (Suc t)" "t + 3 = Suc (Suc (Suc t))" "t + 4 = Suc (Suc (Suc (Suc t)))"
    "t + 1 = Suc t"
    by simp_all
  assume "getContext2d h t initialCanvas" "hasToDataURL h"
  then show ?thesis
    unfolding n
    by (simp add: getUnstable_at renderImages_at run_def textCanvas_def geometryCanvas_def
        split: sum.splits)
qed

lemma denoise_throw_source:
  assumes "getDenoisedCanvasData h c f u = Inl e"
  shows "(\<exists>cv. toDataURL h (u + 1) cv = Inl e \<or> toDataURL h (u + 3) cv = Inl e)
       \<or> (\<exists>cv a b w v. getImageData h (u + 1) cv a b w v = Inl e)"
  using assms unfolding getDenoisedCanvasData_at
  by (auto split: if_splits sum.splits)

lemma denoise_end:
  assumes "getDenoisedCanvasData h c f u = Inr (x, v)"
  shows "v = u + 2 \<or> v = u + 4"
  using assms unfolding getDenoisedCanvasData_at
  by (auto split: if_splits sum.splits)

lemma unstable_throw_source:
  assumes "getContext2d h t initialCanvas" and "hasToDataURL h"
    and "run (getUnstableCanvasFingerprint h False) t = Inl e"
  shows "\<exists>k cv. t + 2 \<le> k \<and> k \<le> t + 4 \<and> toDataURL h k cv = Inl e"
proof -
  from assms(3) have
    "toDataURL h (t + 2) textCanvas = Inl e \<or> toDataURL h (t + 3) textCanvas = Inl e
      \<or> toDataURL h (t + 4) geometryCanvas = Inl e"
    unfolding getUnstable_run [OF assms(1,2)] by (auto split: sum.splits if_splits)
  then show ?thesis
  proof (elim disjE)
    assume "toDataURL h (t + 2) textCanvas = Inl e"
    then show ?thesis by (intro exI [of _ "t + 2"] exI [of _ textCanvas]) simp
  next
    assume "toDataURL h (t + 3) textCanvas = Inl e"
    then show ?thesis by (intro exI [of _ "t + 3"] exI [of _ textCanvas]) simp
  next
    assume "toDataURL h (t + 4) geometryCanvas = Inl e"
    then show ?thesis by (intro exI [of _ "t + 4"] exI [of _ geometryCanvas]) simp
  qed
qed

lemma stage_throw_source:
  assumes "getDenoisedCanvasData h c f u = Inl e" and "t + 2 \<le> u" and "u \<le> t + 6"
  shows "\<exists>k cv. t + 2 \<le> k \<and> k \<le> t + 9
           \<and> (toDataURL h k cv = Inl e \<or> (\<exists>a b w v. getImageData h k cv a b w v = Inl e))"
proof -
  from denoise_throw_source [OF assms(1)] consider
      cv where "toDataURL h (u + 1) cv = Inl e"
    | cv where "toDataURL h (u + 3) cv = Inl e"
    | cv a b w v where "getImageData h (u + 1) cv a b w v = Inl e"
    by blast
  then show ?thesis
  proof cases
    case 1
    with assms(2,3) show ?thesis by (intro exI [of _ "u + 1"] exI [of _ cv]) simp
  next
    case 2
    with assms(2,3) show ?thesis by (intro exI [of _ "u + 3"] exI [of _ cv]) simp
  next
    case 3
    then have "\<exists>a b w v. getImageData h (u + 1) cv a b w v = Inl e" by blast
    with assms(2,3) show ?thesis by (intro exI [of _ "u + 1"] exI [of _ cv]) simp
  qed
qed

lemma noiseResistant_throw_source:
  assumes "getContext2d h t initialCanvas" and "hasToDataURL h"
    and "run (getNoiseResistantCanvasFingerprint h) t = Inl e"
  shows "\<exists>k cv. t + 2 \<le> k \<and> k \<le> t + 9
           \<and> (toDataURL h k cv = Inl e \<or> (\<exists>a b w v. getImageData h k cv a b w v = Inl e))"
proof (cases "getDenoisedCanvasData h windingCanvas renderGeometryImage (t + 2)")
  case (Inl e')
  with assms(3) have "e' = e" unfolding getNoiseResistant_at [OF assms(1,2)] by simp
  with Inl show ?thesis by (intro stage_throw_source [of h windingCanvas renderGeometryImage "t + 2"]) simp_all
next
  case (Inr r)
  obtain g c1 u where r: "r = ((g, c1), u)" by (cases r) auto
  from denoise_end [OF Inr [unfolded r]] have u: "t + 2 \<le> u" "u \<le> t + 6" by auto
  from assms(3) Inr r have "getDenoisedCanvasData h c1 renderTextImage u = Inl e"
    unfolding getNoiseResistant_at [OF assms(1,2)] by (auto split: sum.splits)
  from stage_throw_source [OF this u] show ?thesis .
qed

text \<open>
  C1, amended. \<open>getCanvasFingerprint\<close> has no exception handler; its result is fixed by
  the answers of the host, call by call. Without a 2D context or without \<open>toDataURL\<close> it is
  the record with \<open>Unsupported\<close> for geometry and text and no winding, and no readback is
  asked. Otherwise it is a record exactly when no readback that it asks throws, and else the
  exception of the first readback that throws. Off the denoise path the readbacks are the
  two encodings of the text scene and, when they are equal, the encoding of the geometry
  scene. On the denoise path they are those of \<open>getDenoisedCanvasData\<close> for the geometry
  scene and then for the text scene: the encoding of the source canvas when the scaled
  context is refused; else the pixels of the scaled canvas and then the encoding of the
  output canvas, or of the source canvas when the output context is refused. An exception
  that leaves the call is one that a readback has thrown between the third and the tenth
  host call. (Drawing calls, \<open>getContext\<close> and \<open>isPointInPath\<close> are taken not to throw.)
\<close>

theorem getCanvasFingerprint_structured:
  "(\<not> (getContext2d h t initialCanvas \<and> hasToDataURL h) \<longrightarrow>
      run (getCanvasFingerprint h) t = Inr unsupported)
 \<and> (getContext2d h t initialCanvas \<and> hasToDataURL h \<and> \<not> doesBrowserPerformAntifingerprinting h \<longrightarrow>
      run (getCanvasFingerprint h) t =
        (case toDataURL h (t + 2) textCanvas of Inl e \<Rightarrow> Inl e | Inr e1 \<Rightarrow>
         case toDataURL h (t + 3) textCanvas of Inl e \<Rightarrow> Inl e | Inr e2 \<Rightarrow>
           if e1 \<noteq> e2
           then Inr \<lparr>winding = \<not> isPointInPath h (t + 1) windingCanvas 5 5 ''evenodd'',
                     geometry = Unstable, text_image = Unstable\<rparr>
           else case toDataURL h (t + 4) geometryCanvas of
                  Inl e \<Rightarrow> Inl e
                | Inr g \<Rightarrow> Inr \<lparr>winding = \<not> isPointInPath h (t + 1) windingCanvas 5 5 ''evenodd'',
                                geometry = g, text_image = e1\<rparr>))
 \<and> (getContext2d h t initialCanvas \<and> hasToDataURL h \<and> doesBrowserPerformAntifingerprinting h \<longrightarrow>
      run (getCanvasFingerprint h) t =
        (case getDenoisedCanvasData h windingCanvas renderGeometryImage (t + 2) of
           Inl e \<Rightarrow> Inl e
         | Inr ((g, c1), u) \<Rightarrow>
             (case getDenoisedCanvasData h c1 renderTextImage u of
                Inl e \<Rightarrow> Inl e
              | Inr ((tx, c2), v) \<Rightarrow>
                  Inr \<lparr>winding = \<not> isPointInPath h (t + 1) windingCanvas 5 5 ''evenodd'',
                       geometry = g, text_image = tx\<rparr>)))
 \<and> getDenoisedCanvasData h canvas renderFn u =
      (if \<not> getContext2d h u (scaledCanvasFor (renderFn canvas))
       then case toDataURL h (u + 1) (renderFn canvas) of
              Inl e \<Rightarrow> Inl e
            | Inr url \<Rightarrow> Inr ((url, renderFn canvas), u + 2)
       else case getImageData h (u + 1) (scaledDrawn (renderFn canvas)) 0 0
                   (width (renderFn canvas) * 3) (height (renderFn canvas) * 3) of
              Inl e \<Rightarrow> Inl e
            | Inr d \<Rightarrow>
                case toDataURL h (u + 3)
                       (if getContext2d h (u + 2) (outputCanvasFor (renderFn canvas))
                        then outputDrawn (renderFn canvas)
                               (extractCenters d (width (renderFn canvas) * 3)
                                  (width (renderFn canvas)) (height (renderFn canvas)))
                        else renderFn canvas) of
                  Inl e \<Rightarrow> Inl e
                | Inr url \<Rightarrow> Inr ((url, renderFn canvas), u + 4))
 \<and> (run (getCanvasFingerprint h) t = Inl x \<longrightarrow>
      (\<exists>k cv. t + 2 \<le> k \<and> k \<le> t + 9
         \<and> (toDataURL h k cv = Inl x \<or> (\<exists>a b w v. getImageData h k cv a b w v = Inl x))))"
proof (intro conjI impI)
  assume "\<not> (getContext2d h t initialCanvas \<and> hasToDataURL h)"
  then show "run (getCanvasFingerprint h) t = Inr unsupported" by (rule unsupported_result)
next
  assume a: "getContext2d h t initialCanvas \<and> hasToDataURL h \<and> \<not> doesBrowserPerformAntifingerprinting h"
  then have "run (getCanvasFingerprint h) t = run (getUnstableCanvasFingerprint h False) t"
    by (simp add: getCanvasFingerprint_def)
  with a show "run (getCanvasFingerprint h) t =
        (case toDataURL h (t + 2) textCanvas of Inl e \<Rightarrow> Inl e | Inr e1 \<Rightarrow>
         case toDataURL h (t + 3) textCanvas of Inl e \<Rightarrow> Inl e | Inr e2 \<Rightarrow>
           if e1 \<noteq> e2
           then Inr \<lparr>winding = \<not> isPointInPath h (t + 1) windingCanvas 5 5 ''evenodd'',
                     geometry = Unstable, text_image = Unstable\<rparr>
           else case toDataURL h (t + 4) geometryCanvas of
                  Inl e \<Rightarrow> Inl e
                | Inr g \<Rightarrow> Inr \<lparr>winding = \<not> isPointInPath h (t + 1) windingCanvas 5 5 ''evenodd'',
                                geometry = g, text_image = e1\<rparr>)"
    by (simp only: getUnstable_run)
next
  assume a: "getContext2d h t initialCanvas \<and> hasToDataURL h \<and> doesBrowserPerformAntifingerprinting h"
  then have "run (getCanvasFingerprint h) t = run (getNoiseResistantCanvasFingerprint h) t"
    by (simp add: getCanvasFingerprint_def)
  with a show "run (getCanvasFingerprint h) t =
        (case getDenoisedCanvasData h windingCanvas renderGeometryImage (t + 2) of
           Inl e \<Rightarrow> Inl e
         | Inr ((g, c1), u) \<Rightarrow>
             (case getDenoisedCanvasData h c1 renderTextImage u of
                Inl e \<Rightarrow> Inl e
              | Inr ((tx, c2), v) \<Rightarrow>
                  Inr \<lparr>winding = \<not> isPointInPath h (t + 1) windingCanvas 5 5 ''evenodd'',
                       geometry = g, text_image = tx\<rparr>))"
    by (simp only: getNoiseResistant_at)
next
  show "getDenoisedCanvasData h canvas renderFn u =
      (if \<not> getContext2d h u (scaledCanvasFor (renderFn canvas))
       then case toDataURL h (u + 1) (renderFn canvas) of
              Inl e \<Rightarrow> Inl e
            | Inr url \<Rightarrow> Inr ((url, renderFn canvas), u + 2)
       else case getImageData h (u + 1) (scaledDrawn (renderFn canvas)) 0 0
                   (width (renderFn canvas) * 3) (height (renderFn canvas) * 3) of
              Inl e \<Rightarrow> Inl e
            | Inr d \<Rightarrow>
                case toDataURL h (u + 3)
                       (if getContext2d h (u + 2) (outputCanvasFor (renderFn canvas))
                        then outputDrawn (renderFn canvas)
                               (extractCenters d (width (renderFn canvas) * 3)
                                  (width (renderFn canvas)) (height (renderFn canvas)))
                        else renderFn canvas) of
                  Inl e \<Rightarrow> Inl e
                | Inr url \<Rightarrow> Inr ((url, renderFn canvas), u + 4))"
    by (rule getDenoisedCanvasData_at)
next
  assume x: "run (getCanvasFingerprint h) t = Inl x"
  show "\<exists>k cv. t + 2 \<le> k \<and> k \<le> t + 9
         \<and> (toDataURL h k cv = Inl x \<or> (\<exists>a b w v. getImageData h k cv a b w v = Inl x))"
  proof (cases "getContext2d h t initialCanvas \<and> hasToDataURL h")
    case False
    from unsupported_result [OF this] x show ?thesis by simp
  next
    case True
    show ?thesis
    proof (cases "doesBrowserPerformAntifingerprinting h")
      case True
      with x have "run (getNoiseResistantCanvasFingerprint h) t = Inl x"
        by (simp add: getCanvasFingerprint_def)
      from noiseResistant_throw_source [OF _ _ this] \<open>getContext2d h t initialCanvas \<and> hasToDataURL h\<close>
      show ?thesis by blast
    next
      case False
      with x have "run (getUnstableCanvasFingerprint h False) t = Inl x"
        by (simp add: getCanvasFingerprint_def)
      from unstable_throw_source [OF _ _ this] \<open>getContext2d h t initialCanvas \<and> hasToDataURL h\<close>
      obtain k cv where "t + 2 \<le> k" "k \<le> t + 4" "toDataURL h k cv = Inl x" by blast
      then show ?thesis by (intro exI [of _ k] exI [of _ cv]) simp
    qed
  qed
qed

theorem getCanvasFingerprint_structured_witness:
  "run (getCanvasFingerprint no_canvas) 0
      = Inr \<lparr>winding = False, geometry = ''unsupported'', text_image = ''unsupported''\<rparr>
 \<and> run (getCanvasFingerprint chrome_blocked) 0
      = Inr \<lparr>winding = True, geometry = png ''Z2VvbQ=='', text_image = png ''dGV4dA==''\<rparr>
 \<and> run (getCanvasFingerprint chrome_tainted) 0 = Inl insecure
 \<and> run (getCanvasFingerprint safari17) 0
      = Inr \<lparr>winding = True, geometry = png ''Z2VvbQ=='', text_image = png ''dGV4dA==''\<rparr>
 \<and> run (getCanvasFingerprint safari_text_blocked) 0 = Inl insecure
 \<and> run (getCanvasFingerprint safari_tainted) 0 = Inl insecure
 \<and> run (getCanvasFingerprint lowmem_tainted) 0 = Inl insecure
 \<and> run (getCanvasFingerprint no_output_tainted) 0 = Inl insecure
 \<and> (\<exists>k cv. 2 \<le> k \<and> k \<le> 9
        \<and> (toDataURL lowmem_tainted k cv = Inl insecure
             \<or> (\<exists>a b w v. getImageData lowmem_tainted k cv a b w v = Inl insecure)))"
proof -
  note hosts = no_canvas_def chrome_blocked_def chrome_tainted_def safari_text_blocked_def
    safari_tainted_def lowmem_tainted_def no_output_tainted_def lowmem_def safari17_def chrome_def
    doesBrowserPerformAntifingerprinting_def
  note scenes = textCanvas_def geometryCanvas_def geometrySource_def
  have 1: "run (getCanvasFingerprint no_canvas) 0 = Inr unsupported"
    using getCanvasFingerprint_structured [of no_canvas 0] by (simp add: hosts)
  have 2: "run (getCanvasFingerprint chrome_blocked) 0
      = Inr \<lparr>winding = True, geometry = png ''Z2VvbQ=='', text_image = png ''dGV4dA==''\<rparr>"
    using getCanvasFingerprint_structured [of chrome_blocked 0] by (simp add: hosts)
  have 3: "run (getCanvasFingerprint chrome_tainted) 0 = Inl insecure"
    using getCanvasFingerprint_structured [of chrome_tainted 0] by (simp add: hosts)
  have g: "getDenoisedCanvasData h windingCanvas renderGeometryImage u
             = Inr ((png ''Z2VvbQ=='', geometrySource), u + 4)"
    if "h \<in> {safari17, safari_text_blocked, no_output_tainted}" for h u
    using getCanvasFingerprint_structured [where h = h and canvas = windingCanvas
        and renderFn = renderGeometryImage and u = u] that
    by (auto simp add: hosts scenes)
  have t4: "getDenoisedCanvasData safari17 geometrySource renderTextImage u
             = Inr ((png ''dGV4dA=='', renderTextImage geometrySource), u + 4)" for u
    using getCanvasFingerprint_structured [where h = safari17 and canvas = geometrySource
        and renderFn = renderTextImage and u = u]
    by (simp add: hosts)
  have 4: "run (getCanvasFingerprint safari17) 0
      = Inr \<lparr>winding = True, geometry = png ''Z2VvbQ=='', text_image = png ''dGV4dA==''\<rparr>"
    using getCanvasFingerprint_structured [where h = safari17 and t = 0]
    by (simp add: g t4) (simp add: hosts)
  have t5: "getDenoisedCanvasData safari_text_blocked geometrySource renderTextImage u = Inl insecure"
    for u
    using getCanvasFingerprint_structured [where h = safari_text_blocked and canvas = geometrySource
        and renderFn = renderTextImage and u = u]
    by (simp add: hosts)
  have 5: "run (getCanvasFingerprint safari_text_blocked) 0 = Inl insecure"
    using getCanvasFingerprint_structured [where h = safari_text_blocked and t = 0]
    by (simp add: g t5) (simp add: hosts)
  have g6: "getDenoisedCanvasData safari_tainted windingCanvas renderGeometryImage u = Inl insecure"
    for u
    using getCanvasFingerprint_structured [where h = safari_tainted and canvas = windingCanvas
        and renderFn = renderGeometryImage and u = u]
    by (simp add: hosts)
  have 6: "run (getCanvasFingerprint safari_tainted) 0 = Inl insecure"
    using getCanvasFingerprint_structured [where h = safari_tainted and t = 0]
    by (simp add: g6) (simp add: hosts)
  have g7: "getDenoisedCanvasData lowmem_tainted windingCanvas renderGeometryImage u
             = Inr ((png ''Z2VvbQ=='', geometrySource), u + 2)" for u
    using getCanvasFingerprint_structured [where h = lowmem_tainted and canvas = windingCanvas
        and renderFn = renderGeometryImage and u = u]
    by (simp add: hosts scenes)
  have t7: "getDenoisedCanvasData lowmem_tainted geometrySource renderTextImage u = Inl insecure"
    for u
    using getCanvasFingerprint_structured [where h = lowmem_tainted and canvas = geometrySource
        and renderFn = renderTextImage and u = u]
    by (simp add: hosts)
  have 7: "run (getCanvasFingerprint lowmem_tainted) 0 = Inl insecure"
    using getCanvasFingerprint_structured [where h = lowmem_tainted and t = 0]
    by (simp add: g7 t7) (simp add: hosts)
  have t8: "getDenoisedCanvasData no_output_tainted geometrySource renderTextImage u = Inl insecure"
    for u
    using getCanvasFingerprint_structured [where h = no_output_tainted and canvas = geometrySource
        and renderFn = renderTextImage and u = u]
    by (simp add: hosts)
  have 8: "run (getCanvasFingerprint no_output_tainted) 0 = Inl insecure"
    using getCanvasFingerprint_structured [where h = no_output_tainted and t = 0]
    by (simp add: g t8) (simp add: hosts)
  have 9: "\<exists>k cv. 2 \<le> k \<and> k \<le> 9
        \<and> (toDataURL lowmem_tainted k cv = Inl insecure
             \<or> (\<exists>a b w v. getImageData lowmem_tainted k cv a b w v = Inl insecure))"
  proof -
    from getCanvasFingerprint_structured [where h = lowmem_tainted and t = 0 and x = insecure] 7
    have "\<exists>k cv. 0 + 2 \<le> k \<and> k \<le> 0 + 9
        \<and> (toDataURL lowmem_tainted k cv = Inl insecure
             \<or> (\<exists>a b w v. getImageData lowmem_tainted k cv a b w v = Inl insecure))"
      by blast
    then show ?thesis by (simp only: add_0)
  qed
  from 1 2 3 4 5 6 7 8 9 show ?thesis
    by (simp add: unsupported_def Unsupported_def)
qed

text \<open>
  C3. Two invocations of \<open>getCanvasFingerprint\<close>, started at any two ticks \<open>t1\<close> and \<open>t2\<close>
  of a host that gives, to the \<open>k\<close>-th call after \<open>t2\<close>, the answers it gives to the \<open>k\<close>-th
  call after \<open>t1\<close>, end alike: with equal records, or with the same exception. The same holds
  of \<open>getScreenMediaQueries\<close>. The denoise path is covered: the statement is about every host,
  also one whose answers change from call to call within an invocation.
\<close>

theorem fingerprints_repeatable:
  "(same_canvas_answers h t1 t2 \<longrightarrow>
      run (getCanvasFingerprint h) t1 = run (getCanvasFingerprint h) t2)
 \<and> (same_mq_answers g u1 u2 \<longrightarrow>
      run (getScreenMediaQueries g) u1 = run (getScreenMediaQueries g) u2)"
  using lockstep_run [OF ls_getCanvasFingerprint, of h t1 t2]
    lockstep_run [OF ls_getScreenMediaQueries, of g u1 u2]
  by blast

theorem fingerprints_repeatable_witness:
  "same_canvas_answers safari17 0 2
 \<and> run (getCanvasFingerprint safari17) 0 = run (getCanvasFingerprint safari17) 2
 \<and> same_canvas_answers samsung 1 3
 \<and> run (getCanvasFingerprint samsung) 1 = run (getCanvasFingerprint samsung) 3
 \<and> same_mq_answers laptop 0 5
 \<and> run (getScreenMediaQueries laptop) 0 = run (getScreenMediaQueries laptop) 5"
proof -
  have a: "same_canvas_answers safari17 0 2"
    by (simp add: same_canvas_answers_def safari17_def chrome_def)
  have b: "same_canvas_answers samsung 1 3"
    by (simp add: same_canvas_answers_def samsung_def chrome_def)
  have c: "same_mq_answers laptop 0 5"
    by (simp add: same_mq_answers_def laptop_def)
  from fingerprints_repeatable [of safari17 0 2 laptop 0 5] fingerprints_repeatable [of samsung 1 3 laptop 0 5]
    a b c
  show ?thesis by simp
qed

section \<open>Properties of the WebRTC source\<close>

text \<open>
  Every rest that the matcher lists is the input without a prefix in the language of the
  expression; so what \<open>match\<close> returns is a word of that language.
\<close>

lemma repMatches_sound:
  assumes m: "\<And>s rest. rest \<in> set (m s) \<Longrightarrow> \<exists>u. s = u @ rest \<and> u \<in> L"
  shows "rest \<in> set (repMatches m lo hi s) \<Longrightarrow>
         \<exists>u n. s = u @ rest \<and> u \<in> lang_pow L n \<and> lo \<le> n \<and> n \<le> hi"
proof (induction hi arbitrary: lo s)
  case 0
  then have "lo = 0" "rest = s" by (auto split: if_splits)
  then have "s = [] @ rest \<and> [] \<in> lang_pow L 0 \<and> lo \<le> 0 \<and> (0::nat) \<le> 0" by simp
  then show ?case by blast
next
  case (Suc hi)
  from Suc.prems consider
    (more) mid where "mid \<in> set (m s)" "rest \<in> set (repMatches m (lo - 1) hi mid)"
  | (stop) "lo = 0" "rest = s"
    by (auto split: if_splits)
  then show ?case
  proof cases
    case more
    from m [OF more(1)] obtain u where u: "s = u @ mid" "u \<in> L" by blast
    from Suc.IH [OF more(2)] obtain u' n where
      n: "mid = u' @ rest" "u' \<in> lang_pow L n" "lo - 1 \<le> n" "n \<le> hi" by blast
    have "s = (u @ u') @ rest \<and> u @ u' \<in> lang_pow L (Suc n) \<and> lo \<le> Suc n \<and> Suc n \<le> Suc hi"
      using u n by auto
    then show ?thesis by blast
  next
    case stop
    then have "s = [] @ rest \<and> [] \<in> lang_pow L 0 \<and> lo \<le> 0 \<and> (0::nat) \<le> Suc hi" by simp
    then show ?thesis by blast
  qed
qed

lemma matches_sound: "rest \<in> set (matches r s) \<Longrightarrow> \<exists>u. s = u @ rest \<and> u \<in> lang r"
proof (induction r arbitrary: s rest)
  case (Cls p)
  then show ?case by (auto split: list.splits if_splits)
next
  case (Seq a b)
  from Seq.prems obtain mid where mid: "mid \<in> set (matches a s)" "rest \<in> set (matches b mid)"
    by auto
  from Seq.IH(1) [OF mid(1)] obtain u where u: "s = u @ mid" "u \<in> lang a" by blast
  from Seq.IH(2) [OF mid(2)] obtain v where v: "mid = v @ rest" "v \<in> lang b" by blast
  have "s = (u @ v) @ rest \<and> u @ v \<in> lang (Seq a b)" using u v by auto
  then show ?case by blast
next
  case (Alt a b)
  from Alt.prems have "rest \<in> set (matches a s) \<or> rest \<in> set (matches b s)" by simp
  then show ?case
  proof
    assume "rest \<in> set (matches a s)"
    from Alt.IH(1) [OF this] obtain u where "s = u @ rest" "u \<in> lang a" by blast
    then have "s = u @ rest \<and> u \<in> lang (Alt a b)" by simp
    then show ?thesis by blast
  next
    assume "rest \<in> set (matches b s)"
    from Alt.IH(2) [OF this] obtain u where "s = u @ rest" "u \<in> lang b" by blast
    then have "s = u @ rest \<and> u \<in> lang (Alt a b)" by simp
    then show ?thesis by blast
  qed
next
  case (Rep lo hi a)
  from Rep.prems have "rest \<in> set (repMatches (matches a) lo hi s)" by simp
  from repMatches_sound [of "matches a" "lang a", OF Rep.IH this]
  obtain u n where "s = u @ rest" "u \<in> lang_pow (lang a) n" "lo \<le> n" "n \<le> hi" by blast
  then have "s = u @ rest \<and> u \<in> lang (Rep lo hi a)" by auto
  then show ?case by blast
qed

lemma match_sound: "match r s = Some ip \<Longrightarrow> ip \<in> lang r"
proof (induction r s rule: match.induct)
  case (1 r s)
  show ?case
  proof (cases "matches r s")
    case Nil
    with "1.prems" obtain c cs where s: "s = c # cs" and m: "match r cs = Some ip"
      by (cases s) (simp_all)
    from "1.IH" [OF Nil s m] show ?thesis .
  next
    case (Cons rest others)
    then have "rest \<in> set (matches r s)" by simp
    from matches_sound [OF this] obtain u where u: "s = u @ rest" "u \<in> lang r" by blast
    from "1.prems" Cons have "ip = take (length s - length rest) s" by simp
    with u show ?thesis by simp
  qed
qed

declare match.simps [simp del]

lemma lang_ClsD: "u \<in> lang (Cls p) \<Longrightarrow> \<exists>c. u = [c] \<and> p c"
  by simp

lemma lang_SeqD: "u \<in> lang (Seq a b) \<Longrightarrow> \<exists>v w. u = v @ w \<and> v \<in> lang a \<and> w \<in> lang b"
  by simp

lemma lang_AltD: "u \<in> lang (Alt a b) \<Longrightarrow> u \<in> lang a \<or> u \<in> lang b"
  by simp

lemma lang_RepD: "u \<in> lang (Rep lo hi a) \<Longrightarrow> \<exists>n. lo \<le> n \<and> n \<le> hi \<and> u \<in> lang_pow (lang a) n"
  by auto

lemma lang_pow_SucD: "u \<in> lang_pow L (Suc n) \<Longrightarrow> \<exists>v w. u = v @ w \<and> v \<in> L \<and> w \<in> lang_pow L n"
  by simp

lemma lang_pow_0D: "u \<in> lang_pow L 0 \<Longrightarrow> u = []"
  by simp

declare lang.simps [simp del] lang_pow.simps [simp del]

lemma lang_pow_Cls:
  "u \<in> lang_pow (lang (Cls p)) n \<Longrightarrow> length u = n \<and> list_all p u"
proof (induction n arbitrary: u)
  case 0
  from lang_pow_0D [OF this] show ?case by simp
next
  case (Suc n)
  from lang_pow_SucD [OF Suc.prems] obtain v w where
    vw: "u = v @ w" "v \<in> lang (Cls p)" "w \<in> lang_pow (lang (Cls p)) n" by blast
  from lang_ClsD [OF vw(2)] obtain c where c: "v = [c]" "p c" by blast
  from Suc.IH [OF vw(3)] vw(1) c show ?case by simp
qed

lemma lang_digit_group: "u \<in> lang (Rep 1 3 (Cls is_digit)) \<Longrightarrow> digit_group u"
proof -
  assume "u \<in> lang (Rep 1 3 (Cls is_digit))"
  from lang_RepD [OF this] obtain n where
    n: "1 \<le> n" "n \<le> 3" "u \<in> lang_pow (lang (Cls is_digit)) n" by blast
  from lang_pow_Cls [OF n(3)] n(1,2) show ?thesis by (simp add: digit_group_def)
qed

lemma lang_dot_digit_group:
  assumes "u \<in> lang (Seq (Cls (\<lambda>c. c = CHR ''.'')) (Rep 1 3 (Cls is_digit)))"
  shows "\<exists>a. u = CHR ''.'' # a \<and> digit_group a"
proof -
  from lang_SeqD [OF assms] obtain v w where
    vw: "u = v @ w" "v \<in> lang (Cls (\<lambda>c. c = CHR ''.''))" "w \<in> lang (Rep 1 3 (Cls is_digit))"
    by blast
  from lang_ClsD [OF vw(2)] have "v = [CHR ''.'']" by simp
  with vw(1) lang_digit_group [OF vw(3)] show ?thesis by simp
qed

lemma lang_pow3:
  assumes "u \<in> lang_pow L 3"
  shows "\<exists>a b c. u = a @ b @ c \<and> a \<in> L \<and> b \<in> L \<and> c \<in> L"
proof -
  have e: "(3::nat) = Suc (Suc (Suc 0))" by simp
  from assms have "u \<in> lang_pow L (Suc (Suc (Suc 0)))" unfolding e .
  from lang_pow_SucD [OF this] obtain a r where a: "u = a @ r" "a \<in> L" "r \<in> lang_pow L (Suc (Suc 0))"
    by blast
  from lang_pow_SucD [OF a(3)] obtain b r' where b: "r = b @ r'" "b \<in> L" "r' \<in> lang_pow L (Suc 0)"
    by blast
  from lang_pow_SucD [OF b(3)] obtain c r'' where c: "r' = c @ r''" "c \<in> L" "r'' \<in> lang_pow L 0"
    by blast
  from lang_pow_0D [OF c(3)] a b c have "u = a @ b @ c \<and> a \<in> L \<and> b \<in> L \<and> c \<in> L" by simp
  then show ?thesis by blast
qed

lemma lang_ipv4:
  assumes "u \<in> lang ipv4_rx"
  shows "\<exists>a b c d. u = a @ CHR ''.'' # b @ CHR ''.'' # c @ CHR ''.'' # d
           \<and> digit_group a \<and> digit_group b \<and> digit_group c \<and> digit_group d"
proof -
  let ?G = "Seq (Cls (\<lambda>c. c = CHR ''.'')) (Rep 1 3 (Cls is_digit))"
  from assms have "u \<in> lang (Seq (Rep 1 3 (Cls is_digit)) (Rep 3 3 ?G))"
    by (simp only: ipv4_rx_def)
  from lang_SeqD [OF this] obtain a r where
    a: "u = a @ r" "a \<in> lang (Rep 1 3 (Cls is_digit))" "r \<in> lang (Rep 3 3 ?G)" by blast
  from lang_RepD [OF a(3)] obtain n where "3 \<le> n" "n \<le> 3" "r \<in> lang_pow (lang ?G) n" by blast
  then have r: "r \<in> lang_pow (lang ?G) 3" by (cases "n = 3") simp_all
  from lang_pow3 [OF r] obtain x y z where
    xyz: "r = x @ y @ z" "x \<in> lang ?G" "y \<in> lang ?G" "z \<in> lang ?G" by blast
  from lang_dot_digit_group [OF xyz(2)] obtain b where b: "x = CHR ''.'' # b" "digit_group b" by blast
  from lang_dot_digit_group [OF xyz(3)] obtain c where c: "y = CHR ''.'' # c" "digit_group c" by blast
  from lang_dot_digit_group [OF xyz(4)] obtain d where d: "z = CHR ''.'' # d" "digit_group d" by blast
  have "u = a @ CHR ''.'' # b @ CHR ''.'' # c @ CHR ''.'' # d \<and> digit_group a \<and> digit_group b \<and> digit_group c \<and> digit_group d"
    using a(1) xyz(1) b c d lang_digit_group [OF a(2)] by simp
  then show ?thesis by blast
qed

lemma lang_ipv6:
  assumes "u \<in> lang ipv6_rx"
  shows "CHR '':'' \<in> set u"
proof -
  let ?G = "Seq (Cls (\<lambda>c. c = CHR '':'')) (Rep 1 4 (Cls hex_digit))"
  from assms have "u \<in> lang (Seq (Rep 1 4 (Cls hex_digit)) (Rep 7 7 ?G))"
    by (simp only: ipv6_rx_def)
  from lang_SeqD [OF this] obtain a r where
    a: "u = a @ r" "r \<in> lang (Rep 7 7 ?G)" by blast
  from lang_RepD [OF a(2)] obtain n where n: "7 \<le> n" "r \<in> lang_pow (lang ?G) n" by blast
  from n(1) obtain k where "n = Suc k" by (cases n) simp_all
  with n(2) have "r \<in> lang_pow (lang ?G) (Suc k)" by simp
  from lang_pow_SucD [OF this] obtain x y where x: "r = x @ y" "x \<in> lang ?G" by blast
  from lang_SeqD [OF x(2)] obtain v w where v: "x = v @ w" "v \<in> lang (Cls (\<lambda>c. c = CHR '':''))" by blast
  from lang_ClsD [OF v(2)] have "v = [CHR '':'']" by simp
  with a(1) x(1) v(1) show ?thesis by simp
qed

lemma match_ip_shape:
  assumes "match ip_rx line = Some ip" and "\<not> includes_chr ip CHR '':''"
  shows "\<exists>a b c d. ip = a @ CHR ''.'' # b @ CHR ''.'' # c @ CHR ''.'' # d
           \<and> digit_group a \<and> digit_group b \<and> digit_group c \<and> digit_group d"
proof -
  from match_sound [OF assms(1)] have "ip \<in> lang (Alt ipv4_rx ipv6_rx)"
    by (simp only: ip_rx_def)
  from lang_AltD [OF this] have "ip \<in> lang ipv4_rx \<or> ip \<in> lang ipv6_rx" .
  with assms(2) lang_ipv6 have "ip \<in> lang ipv4_rx" by (auto simp: includes_chr_def)
  then show ?thesis by (rule lang_ipv4)
qed

lemma not_digit_dot: "\<not> is_digit CHR ''.''"
  by (simp add: is_digit_def)

lemma digit_group_no_dot: "digit_group a \<Longrightarrow> CHR ''.'' \<notin> set a"
proof
  assume "digit_group a" and "CHR ''.'' \<in> set a"
  then have "is_digit CHR ''.''" by (simp add: digit_group_def list_all_iff)
  with not_digit_dot show False by simp
qed

lemma splitOn_none: "sep \<notin> set a \<Longrightarrow> splitOn sep a = [a]"
proof (induction a)
  case Nil
  show ?case by simp
next
  case (Cons c a)
  from Cons.prems have ne: "c \<noteq> sep" and "sep \<notin> set a" by auto
  from Cons.IH [OF this(2)] ne show ?case by simp
qed

lemma splitOn_append: "sep \<notin> set a \<Longrightarrow> splitOn sep (a @ sep # r) = a # splitOn sep r"
proof (induction a)
  case Nil
  show ?case by simp
next
  case (Cons c a)
  from Cons.prems have ne: "c \<noteq> sep" and "sep \<notin> set a" by auto
  from Cons.IH [OF this(2)] ne show ?case by simp
qed

lemma splitOn_quad:
  assumes "digit_group a" "digit_group b" "digit_group c" "digit_group d"
  shows "splitOn CHR ''.'' (a @ CHR ''.'' # b @ CHR ''.'' # c @ CHR ''.'' # d) = [a, b, c, d]"
  using assms
  by (simp add: splitOn_append splitOn_none digit_group_no_dot)

lemma Number_digit_group: "digit_group a \<Longrightarrow> Number a = Some (decimal a)"
  by (simp add: Number_def digit_group_def)

lemma isPrivateIPv4_quad:
  assumes "digit_group a" "digit_group b" "digit_group c" "digit_group d"
  shows "isPrivateIPv4 (a @ CHR ''.'' # b @ CHR ''.'' # c @ CHR ''.'' # d)
           = in_private_range (decimal a) (decimal b)"
  unfolding isPrivateIPv4_def splitOn_quad [OF assms] in_private_range_def
  by (simp add: Number_digit_group assms) blast

lemma private_groups_of_match:
  assumes "match ip_rx line = Some ip" and "\<not> includes_chr ip CHR '':''" and "isPrivateIPv4 ip"
  shows "private_groups ip"
proof -
  from match_ip_shape [OF assms(1,2)] obtain a b c d where
    q: "ip = a @ CHR ''.'' # b @ CHR ''.'' # c @ CHR ''.'' # d" "digit_group a" "digit_group b" "digit_group c" "digit_group d"
    by blast
  from assms(3) have "in_private_range (decimal a) (decimal b)"
    unfolding q(1) isPrivateIPv4_quad [OF q(2-5)] .
  with q(2-5) show ?thesis
    unfolding private_groups_def q(1) splitOn_quad [OF q(2-5)] by simp
qed

text \<open>
  The argument of \<open>isPrivateIPv4\<close> in the handler: every part is a group of digits, where
  the model of \<open>Number\<close> is exact.
\<close>

lemma isPrivateIPv4_argument:
  assumes "match ip_rx line = Some ip" and "\<not> includes_chr ip CHR '':''"
  shows "list_all digit_group (splitOn CHR ''.'' ip)"
proof -
  from match_ip_shape [OF assms] obtain a b c d where
    q: "ip = a @ CHR ''.'' # b @ CHR ''.'' # c @ CHR ''.'' # d"
      "digit_group a" "digit_group b" "digit_group c" "digit_group d"
    by blast
  show ?thesis unfolding q(1) splitOn_quad [OF q(2-5)] using q(2-5) by simp
qed

text \<open>With groups that are octets, the test of the first two groups decides the block.\<close>

lemma in_block_private:
  assumes "in_private_range a b" and "b \<le> 255" and "c \<le> 255" and "d \<le> 255"
  shows "in_block (quad a b c d) (quad 10 0 0 0) 8 \<or> in_block (quad a b c d) (quad 172 16 0 0) 12
       \<or> in_block (quad a b c d) (quad 192 168 0 0) 16 \<or> in_block (quad a b c d) (quad 169 254 0 0) 16"
proof -
  have 1: "in_block (quad 10 b c d) (quad 10 0 0 0) 8"
    using assms(2-4) unfolding in_block_def quad_def by (simp; arith)
  have 2: "in_block (quad 172 b c d) (quad 172 16 0 0) 12" if "16 \<le> b" "b \<le> 31"
    using assms(3,4) that unfolding in_block_def quad_def by (simp; arith)
  have 3: "in_block (quad 192 168 c d) (quad 192 168 0 0) 16"
    using assms(3,4) unfolding in_block_def quad_def by (simp; arith)
  have 4: "in_block (quad 169 254 c d) (quad 169 254 0 0) 16"
    using assms(3,4) unfolding in_block_def quad_def by (simp; arith)
  from assms(1) 1 2 3 4 show ?thesis unfolding in_private_range_def by blast
qed

lemma private_groups_address:
  assumes "private_groups ip" and "list_all decimal_octet (splitOn CHR ''.'' ip)"
  shows "private_ipv4_address ip"
proof -
  from assms(1) obtain a b c d where
    s: "splitOn CHR ''.'' ip = [a, b, c, d]" and r: "in_private_range (decimal a) (decimal b)"
    unfolding private_groups_def by (auto split: list.splits)
  from assms(2) have o: "decimal_octet a" "decimal_octet b" "decimal_octet c" "decimal_octet d"
    unfolding s by simp_all
  then have le: "decimal b \<le> 255" "decimal c \<le> 255" "decimal d \<le> 255"
    by (simp_all add: decimal_octet_def)
  have "ipv4_address ip = Some (quad (decimal a) (decimal b) (decimal c) (decimal d))"
    unfolding ipv4_address_def s using o by simp
  with in_block_private [OF r le] show ?thesis by (simp add: private_ipv4_address_def)
qed

lemma toLowerCase_append: "toLowerCase (a @ b) = toLowerCase a @ toLowerCase b"
  by (simp add: toLowerCase_def)

lemma begins_fe80_linklocal: "begins_fe80 ip \<Longrightarrow> isLinkLocalIPv6 ip"
proof -
  assume b: "begins_fe80 ip"
  have ip: "ip = take 5 ip @ drop 5 ip" by simp
  have l: "toLowerCase (take 5 ip) = ''fe80:''"
    using b unfolding begins_fe80_def by (auto simp: toLowerCase_def)
  have "isLinkLocalIPv6 (take 5 ip @ drop 5 ip)"
    unfolding isLinkLocalIPv6_def startsWith_def toLowerCase_append l by simp
  with ip show ?thesis by simp
qed

lemma finish_keeps [simp]: "result (finish st) = result st" "seenIPs (finish st) = seenIPs st"
  by (simp_all add: finish_def)

lemma clearTimeout_keeps [simp]:
  "result (clearTimeout st) = result st" "seenIPs (clearTimeout st) = seenIPs st"
  by (simp_all add: clearTimeout_def)

lemma close_pc_keeps [simp]: "result (close_pc st) = result st" "seenIPs (close_pc st) = seenIPs st"
  by (simp_all add: close_pc_def)

lemma ips_ok_finish [simp]: "ips_ok (finish st) = ips_ok st"
  by (simp add: ips_ok_def)

lemma ips_ok_clearTimeout [simp]: "ips_ok (clearTimeout st) = ips_ok st"
  by (simp add: ips_ok_def)

lemma ips_ok_close_pc [simp]: "ips_ok (close_pc st) = ips_ok st"
  by (simp add: ips_ok_def)

text \<open>
  The invariant of the handlers: the lists hold no string twice and only strings of
  \<open>seenIPs\<close>; a string enters a list only when it is new and has passed the test of its
  list.
\<close>

lemma ips_ok_seen:
  "ips_ok st \<Longrightarrow> ips_ok (st\<lparr>seenIPs := insert ip (seenIPs st)\<rparr>)"
  by (auto simp: ips_ok_def)

lemma ips_ok_pushIPv4:
  "ips_ok st \<Longrightarrow> ip \<notin> seenIPs st \<Longrightarrow> private_groups ip \<Longrightarrow>
   ips_ok (pushIPv4 ip (st\<lparr>seenIPs := insert ip (seenIPs st)\<rparr>))"
  by (auto simp: ips_ok_def pushIPv4_def)

lemma ips_ok_pushIPv6:
  "ips_ok st \<Longrightarrow> ip \<notin> seenIPs st \<Longrightarrow> \<not> begins_fe80 ip \<Longrightarrow>
   ips_ok (pushIPv6 ip (st\<lparr>seenIPs := insert ip (seenIPs st)\<rparr>))"
  by (auto simp: ips_ok_def pushIPv6_def)

lemma ips_ok_onicecandidate: "ips_ok st \<Longrightarrow> ips_ok (onicecandidate c st)"
proof (cases c)
  case None
  assume "ips_ok st"
  then show ?thesis using None by (simp add: onicecandidate_def)
next
  case (Some line)
  assume ok: "ips_ok st"
  show ?thesis
  proof (cases "match ip_rx line")
    case None
    with ok Some show ?thesis by (simp add: onicecandidate_def)
  next
    case m: (Some ip)
    show ?thesis
    proof (cases "ip \<in> seenIPs st")
      case True
      with ok Some m show ?thesis by (simp add: onicecandidate_def)
    next
      case False
      have v4: "ips_ok (pushIPv4 ip (st\<lparr>seenIPs := insert ip (seenIPs st)\<rparr>))"
        if "\<not> includes_chr ip CHR '':''" "isPrivateIPv4 ip"
        using ips_ok_pushIPv4 [OF ok False private_groups_of_match [OF m that]] .
      have v6: "ips_ok (pushIPv6 ip (st\<lparr>seenIPs := insert ip (seenIPs st)\<rparr>))"
        if "\<not> isLinkLocalIPv6 ip"
        using ips_ok_pushIPv6 [OF ok False] that begins_fe80_linklocal by blast
      show ?thesis
        using Some m False v4 v6 ips_ok_seen [OF ok, of ip]
        by (simp add: onicecandidate_def Let_def)
    qed
  qed
qed

lemma timeout_consumed: "st\<lparr>timeoutPending := False\<rparr> = clearTimeout st"
  by (simp add: clearTimeout_def)

lemma ips_ok_step: "ips_ok st \<Longrightarrow> ips_ok (step st e)"
proof (cases e)
  case (IceCandidate c)
  assume "ips_ok st"
  with IceCandidate show ?thesis by (simp add: ips_ok_onicecandidate)
qed (simp_all add: onicegatheringstatechange_def timeout_consumed)

lemma ips_ok_start:
  "ips_ok \<lparr>result = \<lparr>localIPv4 = [], localIPv6 = [], supported = b\<rparr>, seenIPs = {}, resolved = r,
     resolveCalls = n, timeoutPending = p, handlersInstalled = i, offerStarted = q, closeCalls = k\<rparr>"
  by (simp add: ips_ok_def)

lemma ips_ok_flags [simp]:
  "ips_ok (st\<lparr>handlersInstalled := x\<rparr>) = ips_ok st"
  "ips_ok (st\<lparr>offerStarted := y\<rparr>) = ips_ok st"
  by (simp_all add: ips_ok_def)

lemma ips_ok_initial: "ips_ok (getWebRTCIPs w)"
  unfolding getWebRTCIPs_def Let_def catch_setup_def
  by (simp add: ips_ok_start split: option.split)

lemma ips_ok_foldl: "ips_ok st \<Longrightarrow> ips_ok (foldl step st events)"
  by (induction events arbitrary: st) (simp_all add: ips_ok_step)

lemma ips_ok_after: "ips_ok (after w events)"
  unfolding after_def by (rule ips_ok_foldl [OF ips_ok_initial])

lemma step_inert: "inert st \<Longrightarrow> step st e = st"
  by (cases e) (simp_all add: inert_def)

lemma foldl_inert: "inert st \<Longrightarrow> foldl step st events = st"
  by (induction events) (simp_all add: step_inert)

lemma finish_fields [simp]:
  "timeoutPending (finish st) = timeoutPending st"
  "handlersInstalled (finish st) = handlersInstalled st"
  "offerStarted (finish st) = offerStarted st"
  by (simp_all add: finish_def)

text \<open>
  With a constructor, \<open>resolve\<close> is only called by \<open>finish\<close>, under the flag \<open>resolved\<close>:
  it has been called once when the flag is set and never before.
\<close>

lemma counted_finish: "counted st \<Longrightarrow> counted (finish st)"
  by (simp add: counted_def finish_def)

lemma counted_upd [simp]:
  "counted (clearTimeout st) = counted st"
  "counted (close_pc st) = counted st"
  "counted (pushIPv4 ip st) = counted st"
  "counted (pushIPv6 ip st) = counted st"
  "counted (st\<lparr>seenIPs := s\<rparr>) = counted st"
  by (simp_all add: counted_def clearTimeout_def close_pc_def pushIPv4_def pushIPv6_def)

lemma counted_onicecandidate: "counted st \<Longrightarrow> counted (onicecandidate c st)"
  by (simp add: onicecandidate_def Let_def counted_finish split: option.split)

lemma counted_step: "counted st \<Longrightarrow> counted (step st e)"
  by (cases e)
     (simp_all add: counted_onicecandidate counted_finish onicegatheringstatechange_def
        timeout_consumed)

lemma counted_foldl: "counted st \<Longrightarrow> counted (foldl step st events)"
  by (induction events arbitrary: st) (simp_all add: counted_step)

lemma initial_cases: "inert (getWebRTCIPs w) \<and> resolveCalls (getWebRTCIPs w) = 1 \<or> counted (getWebRTCIPs w)"
  by (simp add: getWebRTCIPs_def Let_def catch_setup_def inert_def counted_def finish_def
      clearTimeout_def split: option.split)

lemma resolveCalls_le_1: "resolveCalls (after w events) \<le> 1"
proof -
  from initial_cases [of w] show ?thesis
  proof
    assume "inert (getWebRTCIPs w) \<and> resolveCalls (getWebRTCIPs w) = 1"
    then show ?thesis by (simp add: after_def foldl_inert)
  next
    assume "counted (getWebRTCIPs w)"
    from counted_foldl [OF this, of events] show ?thesis by (simp add: after_def counted_def)
  qed
qed

lemma resolveCalls_upd [simp]:
  "resolveCalls (clearTimeout st) = resolveCalls st"
  "resolveCalls (close_pc st) = resolveCalls st"
  "resolveCalls (pushIPv4 ip st) = resolveCalls st"
  "resolveCalls (pushIPv6 ip st) = resolveCalls st"
  by (simp_all add: clearTimeout_def close_pc_def pushIPv4_def pushIPv6_def)

lemma resolveCalls_finish_upd:
  "resolveCalls st \<le> resolveCalls (finish (clearTimeout st))"
  "resolveCalls st \<le> resolveCalls (finish (close_pc (clearTimeout st)))"
  by (simp_all add: finish_def)

lemma resolveCalls_step_mono: "resolveCalls st \<le> resolveCalls (step st e)"
  by (cases e)
     (simp_all add: onicecandidate_def onicegatheringstatechange_def Let_def resolveCalls_finish_upd
        timeout_consumed split: option.split)

lemma resolveCalls_foldl_mono: "resolveCalls st \<le> resolveCalls (foldl step st events)"
proof (induction events arbitrary: st)
  case Nil
  show ?case by simp
next
  case (Cons e events)
  have "resolveCalls st \<le> resolveCalls (step st e)" by (rule resolveCalls_step_mono)
  also have "\<dots> \<le> resolveCalls (foldl step (step st e) events)" by (rule Cons.IH)
  finally show ?case by simp
qed

subsection \<open>One gathering, evaluated\<close>

lemma repMatches_numeral:
  "repMatches m lo (numeral v) s =
     concat (map (repMatches m (lo - 1) (pred_numeral v)) (m s)) @ (if lo = 0 then [s] else [])"
  by (simp add: numeral_eq_Suc)

lemmas match_eval = ip_rx_def ipv4_rx_def ipv6_rx_def is_digit_def hex_digit_def match.simps
  repMatches_numeral

lemma match_host: "match ip_rx ''candidate:1 1 udp 9 192.168.1.5 5 typ host'' = Some ''192.168.1.5''"
  by (simp add: match_eval)

lemma match_srflx: "match ip_rx ''candidate:2 1 udp 9 8.8.8.8 5 typ srflx'' = Some ''8.8.8.8''"
  by (simp add: match_eval)

lemma match_linklocal:
  "match ip_rx ''candidate:3 1 udp 9 FE80:0:0:0:0:0:0:1 5 typ host'' = Some ''FE80:0:0:0:0:0:0:1''"
  by (simp add: match_eval)

lemma match_ula:
  "match ip_rx ''candidate:4 1 udp 9 fd00:0:0:0:0:0:0:1 5 typ host'' = Some ''fd00:0:0:0:0:0:0:1''"
  by (simp add: match_eval)

lemmas ip_eval = endsWith_def includes_chr_def isLinkLocalIPv6_def startsWith_def toLowerCase_def
  isPrivateIPv4_def Number_def decimal_def digit_value_def is_digit_def

lemmas state_eval = pushIPv4_def pushIPv6_def finish_def clearTimeout_def close_pc_def Let_def

lemma gathering_result:
  "result (after firefox_window gathering)
     = \<lparr>localIPv4 = [''192.168.1.5''], localIPv6 = [''fd00:0:0:0:0:0:0:1''], supported = True\<rparr>
   \<and> resolveCalls (after firefox_window gathering) = 1"
  by (simp add: after_def gathering_def firefox_window_def working_pc_def getWebRTCIPs_def
      PeerConnection_def orElse_def onicecandidate_def match_host match_srflx match_linklocal
      match_ula ip_eval state_eval)

lemma match_malformed:
  "match ip_rx ''candidate:1 1 udp 9 192.168.999.999 5 typ host'' = Some ''192.168.999.999''"
  by (simp add: match_eval)

lemma malformed_result:
  "result (after firefox_window malformed_gathering)
     = \<lparr>localIPv4 = [''192.168.999.999''], localIPv6 = [], supported = True\<rparr>
   \<and> resolveCalls (after firefox_window malformed_gathering) = 1"
  by (simp add: after_def malformed_gathering_def firefox_window_def working_pc_def getWebRTCIPs_def
      PeerConnection_def orElse_def onicecandidate_def match_malformed ip_eval state_eval)

lemmas address_eval = private_ipv4_address_def ipv4_address_def decimal_octet_def decimal_def
  digit_value_def is_digit_def in_block_def quad_def

text \<open>
  C6. The executor of \<open>getWebRTCIPs\<close> has no throwing call outside its try block, and the
  promise is only ever resolved. Without a constructor under any of the three names,
  \<open>resolve\<close> is called once in the executor with \<open>supported = false\<close> and empty lists, and no
  later event changes the state. With a constructor, when the construction,
  \<open>createDataChannel\<close> or \<open>createOffer\<close> throws, \<open>resolve\<close> is called once in the executor
  with \<open>supported = true\<close> and empty lists. After any sequence of events \<open>resolve\<close> has been
  called at most once, and the number of calls never goes back: only the first completion
  path resolves.
\<close>

theorem getWebRTCIPs_resolves_once:
  "(PeerConnection w = None \<longrightarrow>
      resolveCalls (getWebRTCIPs w) = 1
    \<and> result (getWebRTCIPs w) = empty_result False
    \<and> after w events = getWebRTCIPs w)
 \<and> (PeerConnection w = Some pc
      \<and> (constructionThrows pc \<or> createDataChannelThrows pc \<or> createOfferThrows pc) \<longrightarrow>
      resolveCalls (getWebRTCIPs w) = 1 \<and> result (getWebRTCIPs w) = empty_result True)
 \<and> resolveCalls (after w events) \<le> 1
 \<and> resolveCalls (after w events) \<le> resolveCalls (after w (events @ later))"
proof -
  have a: "PeerConnection w = None \<Longrightarrow>
      resolveCalls (getWebRTCIPs w) = 1 \<and> result (getWebRTCIPs w) = empty_result False
      \<and> inert (getWebRTCIPs w)"
    by (simp add: getWebRTCIPs_def Let_def empty_result_def inert_def)
  have b: "PeerConnection w = Some pc \<Longrightarrow>
      constructionThrows pc \<or> createDataChannelThrows pc \<or> createOfferThrows pc \<Longrightarrow>
      resolveCalls (getWebRTCIPs w) = 1 \<and> result (getWebRTCIPs w) = empty_result True"
    by (auto simp add: getWebRTCIPs_def Let_def empty_result_def catch_setup_def finish_def
        clearTimeout_def)
  have c: "resolveCalls (after w events) \<le> resolveCalls (after w (events @ later))"
    by (simp add: after_def resolveCalls_foldl_mono)
  from a b c resolveCalls_le_1 [of w events] show ?thesis
    by (simp add: after_def foldl_inert)
qed

theorem getWebRTCIPs_resolves_once_witness:
  "PeerConnection no_webrtc = None
 \<and> resolveCalls (getWebRTCIPs no_webrtc) = 1
 \<and> result (getWebRTCIPs no_webrtc) = \<lparr>localIPv4 = [], localIPv6 = [], supported = False\<rparr>
 \<and> after no_webrtc gathering = getWebRTCIPs no_webrtc
 \<and> PeerConnection legacy_window = Some (working_pc\<lparr>createOfferThrows := True\<rparr>)
 \<and> resolveCalls (getWebRTCIPs legacy_window) = 1
 \<and> result (getWebRTCIPs legacy_window) = \<lparr>localIPv4 = [], localIPv6 = [], supported = True\<rparr>
 \<and> resolveCalls (after firefox_window []) = 0
 \<and> resolveCalls (after firefox_window gathering) = 1"
proof -
  have a: "PeerConnection no_webrtc = None"
    by (simp add: PeerConnection_def no_webrtc_def orElse_def)
  have b: "PeerConnection legacy_window = Some (working_pc\<lparr>createOfferThrows := True\<rparr>)"
    "createOfferThrows (working_pc\<lparr>createOfferThrows := True\<rparr>)"
    by (simp_all add: PeerConnection_def legacy_window_def orElse_def)
  have c: "resolveCalls (after firefox_window []) = 0"
    by (simp add: after_def getWebRTCIPs_def PeerConnection_def firefox_window_def working_pc_def
        orElse_def)
  from getWebRTCIPs_resolves_once [of no_webrtc gathering] a
  have 1: "resolveCalls (getWebRTCIPs no_webrtc) = 1
     \<and> result (getWebRTCIPs no_webrtc) = empty_result False
     \<and> after no_webrtc gathering = getWebRTCIPs no_webrtc"
    by simp
  from getWebRTCIPs_resolves_once
         [where w = legacy_window and pc = "working_pc\<lparr>createOfferThrows := True\<rparr>"] b
  have 2: "resolveCalls (getWebRTCIPs legacy_window) = 1
     \<and> result (getWebRTCIPs legacy_window) = empty_result True"
    by simp
  from getWebRTCIPs_resolves_once [of firefox_window gathering]
  have 3: "resolveCalls (after firefox_window gathering) \<le> 1" by simp
  from 3 gathering_result have 4: "resolveCalls (after firefox_window gathering) = 1" by simp
  from a b(1) c 1 2 4 show ?thesis by (simp add: empty_result_def)
qed

text \<open>
  C7, as stated, fails: the expression that extracts an address bounds no group by 255, and
  \<open>isPrivateIPv4\<close> tests the first two groups only. A candidate that holds
  \<open>192.168.999.999\<close> puts this string into \<open>localIPv4\<close> of the value the promise is
  resolved with; it is no address, so it lies in none of the four blocks.
\<close>

theorem getWebRTCIPs_lists_malformed:
  "resolveCalls (after firefox_window malformed_gathering) = 1
 \<and> ''192.168.999.999'' \<in> set (localIPv4 (result (after firefox_window malformed_gathering)))
 \<and> \<not> private_ipv4_address ''192.168.999.999''"
  using malformed_result by (simp add: address_eval)

text \<open>
  C7, amended. After the set-up and any sequence of events, so in every value the promise is
  resolved with and at every later moment of that object, the two lists together hold no
  string twice; every element of \<open>localIPv4\<close> is made of four groups of one to three decimal
  digits separated by dots, of which the first reads 10, or 172 with the second from 16 to
  31, or 192 with the second 168, or 169 with the second 254; such an element is an address
  of 10/8, 172.16/12, 192.168/16 or 169.254/16 whenever each of its groups is a decimal
  octet, at most 255 and without a leading zero; and no element of \<open>localIPv6\<close> begins with
  \<open>fe80:\<close> in any mixture of upper and lower case.
\<close>

theorem getWebRTCIPs_addresses:
  "distinct (localIPv4 (result (after w events)) @ localIPv6 (result (after w events)))
 \<and> (\<forall>ip \<in> set (localIPv4 (result (after w events))).
       private_groups ip
       \<and> (list_all decimal_octet (splitOn CHR ''.'' ip) \<longrightarrow> private_ipv4_address ip))
 \<and> (\<forall>ip \<in> set (localIPv6 (result (after w events))). \<not> begins_fe80 ip)"
  using ips_ok_after [of w events] private_groups_address
  by (simp add: ips_ok_def list_all_iff)

theorem getWebRTCIPs_addresses_witness:
  "result (after firefox_window gathering)
     = \<lparr>localIPv4 = [''192.168.1.5''], localIPv6 = [''fd00:0:0:0:0:0:0:1''], supported = True\<rparr>
 \<and> distinct [''192.168.1.5'', ''fd00:0:0:0:0:0:0:1'']
 \<and> private_groups ''192.168.1.5''
 \<and> list_all decimal_octet (splitOn CHR ''.'' ''192.168.1.5'')
 \<and> private_ipv4_address ''192.168.1.5''
 \<and> \<not> begins_fe80 ''fd00:0:0:0:0:0:0:1''
 \<and> localIPv4 (result (after firefox_window malformed_gathering)) = [''192.168.999.999'']
 \<and> private_groups ''192.168.999.999''"
proof -
  have o: "list_all decimal_octet (splitOn CHR ''.'' ''192.168.1.5'')"
    by (simp add: address_eval)
  from getWebRTCIPs_addresses [of firefox_window gathering] gathering_result o
    getWebRTCIPs_addresses [of firefox_window malformed_gathering] malformed_result
  show ?thesis by simp
qed

end
